theory Spec2Isabelle
  imports Main "HOL-Library.AList" "HOL-Library.Char_ord" "HOL-Library.List_Lexorder"
begin

section \<open>Email header parser: the schema set\<close>

text \<open>
  The module keeps one global, \<open>email_header_fields\<close>, a Python set of header names.
  The model passes it explicitly as a \<open>string set\<close>. Python strings are sequences of code
  points; the characters of a \<open>string\<close> are the code points below 256. That is the text
  of messages: header names, header values and bodies. The text that can come from a file
  name has its own type \<open>wstring\<close> below, since a file name can hold what no message holds.
\<close>

type_synonym schema = "string set"

text \<open>
  \<^verbatim>\<open>
  def add_email_header_tracker(header_f):
      for x in header_f:
          if x not in email_header_fields:
              email_header_fields.add(x)
      return True
  \<close>
  \<open>header_f\<close> is a Python set; the list argument is the order in which the \<open>for\<close> loop
  happens to visit its elements. The returned \<open>True\<close> is discarded by the only caller.
\<close>

fun add_email_header_tracker :: "string list \<Rightarrow> schema \<Rightarrow> schema" where
  "add_email_header_tracker [] known = known"
| "add_email_header_tracker (x # xs) known =
     add_email_header_tracker xs (if x \<notin> known then insert x known else known)"

section \<open>Characters and strings\<close>

text \<open>
  \<open>str.lower()\<close> on code points below 256: the ASCII capitals and the Latin-1 capitals
  (U+00C0 to U+00DE, except the multiplication sign U+00D7) move up by 32.
\<close>

definition lower_char :: "char \<Rightarrow> char" where
  "lower_char c =
     (let n = (of_char c :: nat)
      in if (65 \<le> n \<and> n \<le> 90) \<or> (192 \<le> n \<and> n \<le> 214) \<or> (216 \<le> n \<and> n \<le> 222)
         then char_of (n + 32) else c)"

definition lower :: "string \<Rightarrow> string" where
  "lower s = map lower_char s"

text \<open>The characters \<open>str.strip()\<close> removes (\<open>str.isspace\<close>) among the code points below 256.\<close>

definition is_space :: "char \<Rightarrow> bool" where
  "is_space c =
     (let n = (of_char c :: nat)
      in (9 \<le> n \<and> n \<le> 13) \<or> (28 \<le> n \<and> n \<le> 32) \<or> n = 133 \<or> n = 160)"

definition strip :: "string \<Rightarrow> string" where
  "strip s = rev (dropWhile is_space (rev (dropWhile is_space s)))"

text \<open>The characters \<open>\d\<close> matches (Unicode category Nd) among the code points below 256.\<close>

definition is_digit :: "char \<Rightarrow> bool" where
  "is_digit c = (let n = (of_char c :: nat) in 48 \<le> n \<and> n \<le> 57)"

definition newline :: char where
  "newline = CHR 0x0A"

text \<open>
  \<open>os.scandir\<close> decodes file names with the \<open>surrogateescape\<close> handler: a byte \<open>b\<close>
  that is not UTF-8 becomes the lone surrogate U+DC00 + \<open>b\<close>. Such a character can be
  lower-cased, compared, joined and printed like any other, but it cannot be encoded as
  UTF-8 again. \<open>wstring\<close> is a Python string that may hold such characters; it is the type
  of file names and of everything a file name flows into: the printed lines and the
  values of a record.
\<close>

datatype wchar = Code char | Escaped nat

type_synonym wstring = "wchar list"

definition wide :: "string \<Rightarrow> wstring" where
  "wide s = map Code s"

definition lower_wchar :: "wchar \<Rightarrow> wchar" where
  "lower_wchar c = (case c of Code x \<Rightarrow> Code (lower_char x) | Escaped b \<Rightarrow> Escaped b)"

definition lower_text :: "wstring \<Rightarrow> wstring" where
  "lower_text t = map lower_wchar t"

text \<open>Encoding as UTF-8 with the handler \<open>strict\<close> succeeds.\<close>

definition encodable :: "wstring \<Rightarrow> bool" where
  "encodable t = list_all (\<lambda>c. case c of Code x \<Rightarrow> True | Escaped b \<Rightarrow> False) t"

text \<open>\<open>os.path.basename\<close> (POSIX): what follows the last slash.\<close>

definition basename :: "wstring \<Rightarrow> wstring" where
  "basename p = rev (takeWhile (\<lambda>c. c \<noteq> Code CHR ''/'') (rev p))"

text \<open>\<open>"%d" % n\<close> for a length.\<close>

fun str_nat :: "nat \<Rightarrow> string" where
  "str_nat n =
     (if n < 10 then [char_of (48 + n)] else str_nat (n div 10) @ [char_of (48 + n mod 10)])"

section \<open>Regular expressions as \<open>re.search\<close> runs them\<close>

text \<open>
  The three patterns of \<open>pull_artifacts\<close> are built from literal text, single-character
  items (\<open>\d\<close>, \<open>.\<close>, a literal) under \<open>*\<close> or \<open>{m,n}\<close>, concatenation, alternation and
  capturing groups. The matcher returns every way of matching at the current position, in
  the order in which a backtracking engine tries them: alternatives left to right, greedy
  repetitions longest first. The first element is the match \<open>re\<close> reports.
\<close>

datatype item = Lit char | Digit | Dot

datatype regex =
    Str string
  | Atom item
  | Star item
  | Repeat nat nat item
  | Seq regex regex
  | Alt regex regex
  | Group nat regex

type_synonym groups = "(nat \<times> string) list"

fun item_match :: "bool \<Rightarrow> item \<Rightarrow> char \<Rightarrow> bool" where
  "item_match ignorecase (Lit p) c = (if ignorecase then lower_char c = lower_char p else c = p)"
| "item_match ignorecase Digit c = is_digit c"
| "item_match ignorecase Dot c = (c \<noteq> newline)"

fun str_m :: "bool \<Rightarrow> string \<Rightarrow> string \<Rightarrow> string option" where
  "str_m ignorecase [] s = Some s"
| "str_m ignorecase (p # ps) [] = None"
| "str_m ignorecase (p # ps) (c # cs) =
     (if item_match ignorecase (Lit p) c then str_m ignorecase ps cs else None)"

fun star_m :: "(char \<Rightarrow> bool) \<Rightarrow> string \<Rightarrow> string list" where
  "star_m ok [] = [[]]"
| "star_m ok (c # cs) = (if ok c then star_m ok cs @ [c # cs] else [c # cs])"

fun repeat_m :: "(char \<Rightarrow> bool) \<Rightarrow> nat \<Rightarrow> nat \<Rightarrow> string \<Rightarrow> string list" where
  "repeat_m ok lo 0 s = (if lo = 0 then [s] else [])"
| "repeat_m ok lo (Suc hi) [] = (if lo = 0 then [[]] else [])"
| "repeat_m ok lo (Suc hi) (c # cs) =
     (if ok c then repeat_m ok (lo - 1) hi cs @ (if lo = 0 then [c # cs] else [])
      else if lo = 0 then [c # cs] else [])"

fun re_m :: "bool \<Rightarrow> regex \<Rightarrow> string \<times> groups \<Rightarrow> (string \<times> groups) list" where
  "re_m ic (Str p) (s, g) = (case str_m ic p s of None \<Rightarrow> [] | Some r \<Rightarrow> [(r, g)])"
| "re_m ic (Atom i) (s, g) =
     (case s of [] \<Rightarrow> [] | c # cs \<Rightarrow> if item_match ic i c then [(cs, g)] else [])"
| "re_m ic (Star i) (s, g) = map (\<lambda>r. (r, g)) (star_m (item_match ic i) s)"
| "re_m ic (Repeat lo hi i) (s, g) = map (\<lambda>r. (r, g)) (repeat_m (item_match ic i) lo hi s)"
| "re_m ic (Seq a b) st = concat (map (re_m ic b) (re_m ic a st))"
| "re_m ic (Alt a b) st = re_m ic a st @ re_m ic b st"
| "re_m ic (Group n a) (s, g) =
     map (\<lambda>(r, g'). (r, (n, take (length s - length r) s) # g')) (re_m ic a (s, g))"

text \<open>
  \<open>re.search\<close>: the first match at the leftmost position that has one, the end of the
  string included. The result is the match object's groups, \<open>None\<close> when nothing matches.
\<close>

fun re_search :: "bool \<Rightarrow> regex \<Rightarrow> string \<Rightarrow> groups option" where
  "re_search ic r s =
     (case re_m ic r (s, []) of
        m # _ \<Rightarrow> Some (snd m)
      | [] \<Rightarrow> (case s of [] \<Rightarrow> None | _ # t \<Rightarrow> re_search ic r t))"

section \<open>Errors\<close>

datatype error =
    SystemExit string
  | FileNotFoundError
  | NotADirectoryError
  | OSError
  | AttributeError
  | ValueError
  | UnicodeEncodeError

section \<open>The artifact extractor\<close>

text \<open>\<open>'(username|email) *:(.*)'\<close>\<close>

definition user_re :: regex where
  "user_re =
     Seq (Group 1 (Alt (Str ''username'') (Str ''email'')))
       (Seq (Star (Lit CHR '' '')) (Seq (Atom (Lit CHR '':'')) (Group 2 (Star Dot))))"

text \<open>\<open>'(email password|password|pass|pd|ps) *:(.*)'\<close>\<close>

definition pwd_re :: regex where
  "pwd_re =
     Seq (Group 1 (Alt (Str ''email password'') (Alt (Str ''password'')
            (Alt (Str ''pass'') (Alt (Str ''pd'') (Str ''ps''))))))
       (Seq (Star (Lit CHR '' '')) (Seq (Atom (Lit CHR '':'')) (Group 2 (Star Dot))))"

text \<open>\<open>':*(\d{1,3}\.\d{1,3}\.\d{1,3}\.\d{1,3})'\<close>\<close>

definition ip_re :: regex where
  "ip_re =
     Seq (Star (Lit CHR '':''))
       (Group 1
         (Seq (Repeat 1 3 Digit) (Seq (Atom (Lit CHR ''.''))
         (Seq (Repeat 1 3 Digit) (Seq (Atom (Lit CHR ''.''))
         (Seq (Repeat 1 3 Digit) (Seq (Atom (Lit CHR ''.''))
         (Repeat 1 3 Digit))))))))"

text \<open>
  \<open>m.group(n).strip()\<close>: a group that took no part in the match is \<open>None\<close>, and
  \<open>None.strip()\<close> raises.
\<close>

definition group_strip :: "groups \<Rightarrow> nat \<Rightarrow> error + string" where
  "group_strip m n = (case map_of m n of None \<Rightarrow> Inl AttributeError | Some t \<Rightarrow> Inr (strip t))"

definition artifact :: "regex \<Rightarrow> nat \<Rightarrow> string \<Rightarrow> error + string" where
  "artifact r n body =
     (case re_search True r body of
        Some m \<Rightarrow> group_strip m n
      | None \<Rightarrow> Inr ''*'')"

text \<open>
  \<^verbatim>\<open>
  def pull_artifacts(body):
      m1 = re.search('(username|email) *:(.*)', str(body), re.IGNORECASE)
      if m1 is not None: user = m1.group(2).strip()
      else: user = "*"
      m2 = re.search('(email password|password|pass|pd|ps) *:(.*)', str(body), re.IGNORECASE)
      if m2 is not None: pwd = m2.group(2).strip()
      else: pwd = "*"
      m3 = re.search(':*(\d{1,3}\.\d{1,3}\.\d{1,3}\.\d{1,3})', str(body), re.IGNORECASE)
      if m3 is not None: ip = m3.group(1).strip()
      else: ip = "*"
      return user, pwd, ip
  \<close>
  The body is the text of a message that is not multipart.
\<close>

definition pull_artifacts :: "string \<Rightarrow> error + (string \<times> string \<times> string)" where
  "pull_artifacts body =
     (case artifact user_re 2 body of
        Inl e \<Rightarrow> Inl e
      | Inr user \<Rightarrow>
          (case artifact pwd_re 2 body of
             Inl e \<Rightarrow> Inl e
           | Inr pwd \<Rightarrow>
               (case artifact ip_re 1 body of
                  Inl e \<Rightarrow> Inl e
                | Inr ip \<Rightarrow> Inr (user, pwd, ip))))"

section \<open>Messages and records\<close>

text \<open>
  The object \<open>email.message_from_file\<close> returns, as far as the program uses it: the header
  (name, value) pairs in source order and the payload of a message that is not multipart.
  \<open>keys\<close>, \<open>get\<close> and \<open>get_all\<close> are the methods of \<open>email.message.Message\<close>: names
  compare lower-cased, \<open>get\<close> returns the first value, \<open>get_all\<close> all of them in order,
  and both return \<open>None\<close> when the name is absent.
\<close>

record message =
  headers :: "(string \<times> string) list"
  payload :: string

definition keys :: "message \<Rightarrow> string list" where
  "keys m = map fst (headers m)"

definition get :: "message \<Rightarrow> string \<Rightarrow> string option" where
  "get m name =
     (case filter (\<lambda>(k, v). lower k = lower name) (headers m) of
        [] \<Rightarrow> None
      | (k, v) # _ \<Rightarrow> Some v)"

definition get_all :: "message \<Rightarrow> string \<Rightarrow> string list option" where
  "get_all m name =
     (let values = map snd (filter (\<lambda>(k, v). lower k = lower name) (headers m))
      in if values = [] then None else Some values)"

definition get_payload :: "message \<Rightarrow> string" where
  "get_payload m = payload m"

text \<open>
  A value of the record dictionary: a string, a list of strings, or \<open>None\<close>; the text of a
  message is stored as \<open>wide\<close> of it. The dictionary
  itself is an association list in insertion order; \<open>AList.update\<close> is Python's
  \<open>d[k] = v\<close> (replace in place, or append a new key).
\<close>

datatype field = NoneValue | Scalar wstring | Multi "wstring list"

type_synonym header_dict = "(string \<times> field) list"

type_synonym table = "field list list"

text \<open>An open text file: its \<open>name\<close> attribute and the message its text parses to.\<close>

record text_file =
  file_name :: wstring
  file_message :: message

text \<open>
  What the program changes: the global \<open>email_header_fields\<close>, the lines printed, and the
  tables written (file name and rows). Standard output takes every line: its error handler
  is one that lets a lone surrogate through (\<open>surrogateescape\<close>, as Python sets it up in
  the C locale, or \<open>backslashreplace\<close>).
\<close>

record state =
  email_header_fields :: schema
  stdout :: "wstring list"
  written :: "(string \<times> table) list"

definition initial_state :: state where
  "initial_state = \<lparr>email_header_fields = {}, stdout = [], written = []\<rparr>"

definition print :: "wstring \<Rightarrow> state \<Rightarrow> state" where
  "print line st = st\<lparr>stdout := stdout st @ [line]\<rparr>"

section \<open>The header normalizer\<close>

text \<open>
  \<^verbatim>\<open>
  def parse_header(file):
      message = email.message_from_file(file)
      email_headers = [x.lower() for x in message.keys()]
      dup_email_header_fields = set(x for x in email_headers if email_headers.count(x) > 1)
      uniq_email_header_fields = set(email_headers)
      add_email_header_tracker(uniq_email_header_fields)
      header = {}
      header['source-email-file'] = os.path.basename(file.name.lower())
      for x in uniq_email_header_fields:
          if x not in dup_email_header_fields:
              header[x] = message.get(x)
          else:
              header[x] = message.get_all(x)
      header['body'] = message.get_payload()
      header['username'], header['password'], header['ip'] = pull_artifacts(header['body'])
      return header
  \<close>
  The two loops over the set \<open>uniq_email_header_fields\<close> visit its elements in the order of
  \<open>remdups email_headers\<close>.
\<close>

definition of_get :: "string option \<Rightarrow> field" where
  "of_get v = (case v of None \<Rightarrow> NoneValue | Some t \<Rightarrow> Scalar (wide t))"

definition of_get_all :: "string list option \<Rightarrow> field" where
  "of_get_all v = (case v of None \<Rightarrow> NoneValue | Some ts \<Rightarrow> Multi (map wide ts))"

definition parse_header :: "text_file \<Rightarrow> state \<Rightarrow> error + (header_dict \<times> state)" where
  "parse_header file st =
     (let message = file_message file;
          email_headers = map lower (keys message);
          dup_email_header_fields =
            set (filter (\<lambda>x. count_list email_headers x > 1) email_headers);
          uniq_email_header_fields = remdups email_headers;
          st1 = st\<lparr>email_header_fields :=
                   add_email_header_tracker uniq_email_header_fields (email_header_fields st)\<rparr>;
          header0 = AList.update ''source-email-file''
                      (Scalar (basename (lower_text (file_name file)))) [];
          header1 = fold (\<lambda>x header.
                        if x \<notin> dup_email_header_fields
                        then AList.update x (of_get (get message x)) header
                        else AList.update x (of_get_all (get_all message x)) header)
                      uniq_email_header_fields header0;
          header2 = AList.update ''body'' (Scalar (wide (get_payload message))) header1
      in case pull_artifacts (get_payload message) of
           Inl e \<Rightarrow> Inl e
         | Inr (user, pwd, ip) \<Rightarrow>
             Inr (AList.update ''ip'' (Scalar (wide ip))
                   (AList.update ''password'' (Scalar (wide pwd))
                     (AList.update ''username'' (Scalar (wide user)) header2)), st1))"

section \<open>The directory scan\<close>

text \<open>
  A directory entry as \<open>os.scandir\<close> yields it: its name, what \<open>is_file()\<close> answers, and
  what \<open>open\<close> does with it (\<open>None\<close>: it raises; otherwise the message the text parses to).
  A path names nothing, a file that is not a directory, or a directory and its entries.
\<close>

record dir_entry =
  entry_name :: wstring
  entry_is_file :: bool
  entry_open :: "message option"

datatype node = RegularFile | Directory "dir_entry list"

type_synonym filesystem = "string \<Rightarrow> node option"

definition path_exists :: "filesystem \<Rightarrow> string \<Rightarrow> bool" where
  "path_exists fs path = (fs path \<noteq> None)"

definition scandir :: "filesystem \<Rightarrow> string \<Rightarrow> error + dir_entry list" where
  "scandir fs path =
     (case fs path of
        None \<Rightarrow> Inl FileNotFoundError
      | Some RegularFile \<Rightarrow> Inl NotADirectoryError
      | Some (Directory entries) \<Rightarrow> Inr entries)"

text \<open>\<open>entry.path\<close>, which is also \<open>os.fspath(entry)\<close>: the scanned path joined with the name.\<close>

definition entry_path :: "string \<Rightarrow> dir_entry \<Rightarrow> wstring" where
  "entry_path path entry =
     (if path = [] \<or> last path = CHR ''/'' then wide path @ entry_name entry
      else wide path @ wide ''/'' @ entry_name entry)"

text \<open>
  \<open>fnmatch.fnmatch\<close> on POSIX, for a pattern of literal characters and \<open>*\<close>: the whole
  name must match, \<open>*\<close> standing for any run of characters.
\<close>

fun fnmatch :: "wstring \<Rightarrow> string \<Rightarrow> bool" where
  "fnmatch [] [] = True"
| "fnmatch (c # cs) [] = False"
| "fnmatch s (p # ps) =
     (if p = CHR ''*''
      then fnmatch s ps \<or> (case s of [] \<Rightarrow> False | _ # t \<Rightarrow> fnmatch t (p # ps))
      else (case s of [] \<Rightarrow> False | c # cs \<Rightarrow> c = Code p \<and> fnmatch cs ps))"

text \<open>
  \<^verbatim>\<open>
  def load_data(path):
      pattern = '*.eml'
      data = []
      with os.scandir(path) as list_of_Entries:
          for entry in list_of_Entries:
              if entry.is_file() and fnmatch.fnmatch(entry, pattern):
                  print("Working on parsing file: " + entry.name)
                  file = open(entry, "r", encoding="utf8", errors='ignore')
                  temp_dict = parse_header(file)
                  data.append(temp_dict)
      return data
  \<close>
\<close>

definition pattern :: string where
  "pattern = ''*.eml''"

fun load_entries ::
  "string \<Rightarrow> dir_entry list \<Rightarrow> header_dict list \<Rightarrow> state \<Rightarrow> error + (header_dict list \<times> state)"
where
  "load_entries path [] data st = Inr (data, st)"
| "load_entries path (entry # entries) data st =
     (if entry_is_file entry \<and> fnmatch (entry_path path entry) pattern
      then
        (let st1 = print (wide ''Working on parsing file: '' @ entry_name entry) st
         in case entry_open entry of
              None \<Rightarrow> Inl OSError
            | Some m \<Rightarrow>
                (case parse_header \<lparr>file_name = entry_path path entry, file_message = m\<rparr> st1 of
                   Inl e \<Rightarrow> Inl e
                 | Inr (temp_dict, st2) \<Rightarrow> load_entries path entries (data @ [temp_dict]) st2))
      else load_entries path entries data st)"

definition load_data :: "string \<Rightarrow> filesystem \<Rightarrow> state \<Rightarrow> error + (header_dict list \<times> state)" where
  "load_data path fs st =
     (case scandir fs path of
        Inl e \<Rightarrow> Inl e
      | Inr list_of_Entries \<Rightarrow> load_entries path list_of_Entries [] st)"

section \<open>The table writer\<close>

text \<open>
  \<open>csv.DictWriter\<close> as the program uses it. A row is the record's value for each field
  name, \<open>''\<close> where the record has none; a record with a key that is not a field name
  raises \<open>ValueError\<close>. How a value is rendered as text is left to the \<open>csv\<close> module: a
  row is kept as its list of values.

  The output file is opened with \<open>encoding="utf8"\<close> and the handler \<open>strict\<close>, and a row
  is encoded when it is written: a string value with a lone surrogate raises
  \<open>UnicodeEncodeError\<close>. A list value is written as \<open>str\<close> of the list, which escapes
  such characters, and \<open>None\<close> as the empty string.
\<close>

definition encodable_field :: "field \<Rightarrow> bool" where
  "encodable_field v = (case v of NoneValue \<Rightarrow> True | Scalar t \<Rightarrow> encodable t | Multi ts \<Rightarrow> True)"

definition dict_to_list :: "string list \<Rightarrow> header_dict \<Rightarrow> error + field list" where
  "dict_to_list fieldnames rowdict =
     (if filter (\<lambda>k. k \<notin> set fieldnames) (map fst rowdict) \<noteq> [] then Inl ValueError
      else Inr (map (\<lambda>key. case map_of rowdict key of None \<Rightarrow> Scalar [] | Some v \<Rightarrow> v)
                  fieldnames))"

text \<open>
  The operations on the output file are counted as they happen: opening it is number 0,
  the header row number 1, then one per record, then closing it. The environment is the
  number of the operation that raises \<open>IOError\<close>, if any does. When a record raises
  \<open>ValueError\<close> or \<open>UnicodeEncodeError\<close> the \<open>with\<close> block closes the file on the way
  out, and that is the next operation.
\<close>

fun writerows :: "string list \<Rightarrow> header_dict list \<Rightarrow> nat \<Rightarrow> nat option \<Rightarrow> error + table" where
  "writerows fieldnames [] k io = (if io = Some k then Inl OSError else Inr [])"
| "writerows fieldnames (d # ds) k io =
     (case dict_to_list fieldnames d of
        Inl e \<Rightarrow> (if io = Some k then Inl OSError else Inl e)
      | Inr row \<Rightarrow>
          (if \<not> list_all encodable_field row
           then (if io = Some k then Inl OSError else Inl UnicodeEncodeError)
           else if io = Some k then Inl OSError
           else (case writerows fieldnames ds (Suc k) io of
                   Inl e \<Rightarrow> Inl e
                 | Inr rows \<Rightarrow> Inr (row # rows))))"

definition write_table :: "string list \<Rightarrow> header_dict list \<Rightarrow> nat option \<Rightarrow> error + table" where
  "write_table fieldnames data_list io =
     (if io = Some 0 \<or> io = Some 1 then Inl OSError
      else (case writerows fieldnames data_list 2 io of
              Inl e \<Rightarrow> Inl e
            | Inr rows \<Rightarrow> Inr (map (\<lambda>name. Scalar (wide name)) fieldnames # rows)))"

text \<open>
  \<^verbatim>\<open>
  def write_data_to_file(data_list, output_file):
      csv_columns = sorted(email_header_fields)
      csv_columns.extend(['body', 'username', 'password', 'ip', 'source-email-file' ])
      csv_file = output_file
      try:
          with open(csv_file, 'w', newline='', encoding="utf8") as somefile:
              writer = csv.DictWriter(somefile, fieldnames=csv_columns, dialect='excel-tab')
              writer.writeheader()
              for dict_list in data_list:
                  writer.writerow(dict_list)
          return True
      except IOError:
          print("I/O Error!")
          return False
  \<close>
  \<open>IOError\<close> is \<open>OSError\<close>; \<open>ValueError\<close> and \<open>UnicodeEncodeError\<close>, which is a
  \<open>ValueError\<close>, are not caught. What has reached the file when the writing fails is not
  recorded.
\<close>

definition csv_columns :: "schema \<Rightarrow> string list" where
  "csv_columns known =
     sorted_list_of_set known @ [''body'', ''username'', ''password'', ''ip'', ''source-email-file'']"

definition write_data_to_file ::
  "header_dict list \<Rightarrow> string \<Rightarrow> nat option \<Rightarrow> state \<Rightarrow> error + (bool \<times> state)"
where
  "write_data_to_file data_list output_file io st =
     (case write_table (csv_columns (email_header_fields st)) data_list io of
        Inr rows \<Rightarrow> Inr (True, st\<lparr>written := written st @ [(output_file, rows)]\<rparr>)
      | Inl OSError \<Rightarrow> Inr (False, print (wide ''I/O Error!'') st)
      | Inl e \<Rightarrow> Inl e)"

section \<open>The program\<close>

text \<open>
  \<^verbatim>\<open>
  def main():
      if len(sys.argv) != 3:
          sys.exit("Error: Please provide a directory path to where the emails are located and "
                   "a name for the .CSV file. ")
      elif not os.path.exists(sys.argv[1]):
          sys.exit("Argument provided is not a directory.")
      else:
          processed_data = load_data(sys.argv[1])
          print("Processed %d files" % len(processed_data))
          if write_data_to_file(processed_data, sys.argv[2]):
              print("CSV file successfully written!")
  \<close>
\<close>

definition main :: "string list \<Rightarrow> filesystem \<Rightarrow> nat option \<Rightarrow> state \<Rightarrow> error + state" where
  "main argv fs io st =
     (case argv of
        [prog, arg1, arg2] \<Rightarrow>
          (if \<not> path_exists fs arg1 then Inl (SystemExit ''Argument provided is not a directory.'')
           else
             (case load_data arg1 fs st of
                Inl e \<Rightarrow> Inl e
              | Inr (processed_data, st1) \<Rightarrow>
                  (let st2 = print (wide (''Processed '' @ str_nat (length processed_data)
                                             @ '' files'')) st1
                   in case write_data_to_file processed_data arg2 io st2 of
                        Inl e \<Rightarrow> Inl e
                      | Inr (ok, st3) \<Rightarrow>
                          Inr (if ok then print (wide ''CSV file successfully written!'') st3
                               else st3))))
      | _ \<Rightarrow>
          Inl (SystemExit (''Error: Please provide a directory path to where the emails are located and ''
                 @ ''a name for the .CSV file. '')))"

text \<open>
  The exit status: 0 when \<open>main\<close> returns; 1 for \<open>sys.exit\<close> with a message and for an
  exception nobody catches.
\<close>

definition exit_status :: "error + state \<Rightarrow> nat" where
  "exit_status r = (case r of Inl e \<Rightarrow> 1 | Inr st \<Rightarrow> 0)"

section \<open>Notions used to state the properties\<close>

text \<open>A pattern in which group \<open>n\<close> takes part in every match.\<close>

fun binds :: "nat \<Rightarrow> regex \<Rightarrow> bool" where
  "binds n (Group k a) = (k = n \<or> binds n a)"
| "binds n (Seq a b) = (binds n a \<or> binds n b)"
| "binds n (Alt a b) = (binds n a \<and> binds n b)"
| "binds n r = False"

text \<open>
  The values of the headers of a message whose name, lower-cased, is \<open>x\<close>, in source
  order; and the value the invariant of the data model asks for: the scalar when there is
  one occurrence, the sequence of all of them otherwise.
\<close>

definition occurrences :: "message \<Rightarrow> string \<Rightarrow> string list" where
  "occurrences m x = map snd (filter (\<lambda>(k, v). lower k = x) (headers m))"

definition header_value :: "message \<Rightarrow> string \<Rightarrow> field" where
  "header_value m x =
     (case occurrences m x of [v] \<Rightarrow> Scalar (wide v) | vs \<Rightarrow> Multi (map wide vs))"

text \<open>
  The artifacts in the words of the specification. A label is one of the keywords, in any
  case, followed by optional spaces and a colon; \<open>after_keyword\<close> returns what follows the
  colon. \<open>first_keyword\<close> tries the keywords left to right at one position,
  \<open>first_position\<close> the positions left to right. The artifact is the rest of that line,
  trimmed, or the placeholder.
\<close>

definition after_keyword :: "string \<Rightarrow> string \<Rightarrow> string option" where
  "after_keyword kw s =
     (if length kw \<le> length s \<and> lower (take (length kw) s) = lower kw
      then (case dropWhile (\<lambda>c. c = CHR '' '') (drop (length kw) s) of
              [] \<Rightarrow> None
            | c # rest \<Rightarrow> if c = CHR '':'' then Some rest else None)
      else None)"

fun first_keyword :: "string list \<Rightarrow> string \<Rightarrow> string option" where
  "first_keyword [] s = None"
| "first_keyword (kw # kws) s =
     (case after_keyword kw s of Some rest \<Rightarrow> Some rest | None \<Rightarrow> first_keyword kws s)"

fun first_position :: "(string \<Rightarrow> 'a option) \<Rightarrow> string \<Rightarrow> 'a option" where
  "first_position f s =
     (case f s of
        Some r \<Rightarrow> Some r
      | None \<Rightarrow> (case s of [] \<Rightarrow> None | _ # t \<Rightarrow> first_position f t))"

definition rest_of_line :: "string \<Rightarrow> string" where
  "rest_of_line s = takeWhile (\<lambda>c. c \<noteq> newline) s"

definition labelled_value :: "string list \<Rightarrow> string \<Rightarrow> string" where
  "labelled_value kws body =
     (case first_position (first_keyword kws) body of
        Some rest \<Rightarrow> strip (rest_of_line rest)
      | None \<Rightarrow> ''*'')"

text \<open>
  Four groups of one to three digits separated by periods, at the head of a text. Each of
  the first three groups is the whole run of digits before its period; the last group is
  the next digits, up to three of them.
\<close>

definition digit_group :: "string \<Rightarrow> (string \<times> string) option" where
  "digit_group s =
     (let d = takeWhile is_digit s
      in if 1 \<le> length d \<and> length d \<le> 3
         then (case dropWhile is_digit s of
                 [] \<Rightarrow> None
               | c # rest \<Rightarrow> if c = CHR ''.'' then Some (d, rest) else None)
         else None)"

definition last_group :: "string \<Rightarrow> string option" where
  "last_group s = (let d = take 3 (takeWhile is_digit s) in if d = [] then None else Some d)"

definition dotted_quad :: "string \<Rightarrow> string option" where
  "dotted_quad s =
     (case digit_group s of
        None \<Rightarrow> None
      | Some (a, s1) \<Rightarrow>
          (case digit_group s1 of
             None \<Rightarrow> None
           | Some (b, s2) \<Rightarrow>
               (case digit_group s2 of
                  None \<Rightarrow> None
                | Some (c, s3) \<Rightarrow>
                    (case last_group s3 of
                       None \<Rightarrow> None
                     | Some d \<Rightarrow> Some (a @ ''.'' @ b @ ''.'' @ c @ ''.'' @ d)))))"

definition first_ip :: "string \<Rightarrow> string" where
  "first_ip body = (case first_position dotted_quad body of Some t \<Rightarrow> t | None \<Rightarrow> ''*'')"

text \<open>The first match of a list of matches, and what a list of keywords leaves of a text.\<close>

definition first_groups :: "(string \<times> groups) list \<Rightarrow> groups option" where
  "first_groups ms = (case ms of [] \<Rightarrow> None | m # _ \<Rightarrow> Some (snd m))"

definition keyword_rests :: "string list \<Rightarrow> string \<Rightarrow> string list" where
  "keyword_rests kws s =
     concat (map (\<lambda>k. case str_m True k s of None \<Rightarrow> [] | Some r \<Rightarrow> [r]) kws)"

text \<open>
  The files of a directory listing the specification selects: regular files whose name ends
  in \<open>.eml\<close>.
\<close>

definition endswith :: "'a list \<Rightarrow> 'a list \<Rightarrow> bool" where
  "endswith s suffix = (length suffix \<le> length s \<and> drop (length s - length suffix) s = suffix)"

definition eml_files :: "dir_entry list \<Rightarrow> dir_entry list" where
  "eml_files entries =
     filter (\<lambda>e. entry_is_file e \<and> endswith (entry_name e) (wide ''.eml'')) entries"

text \<open>
  An I/O error occurs while a table of \<open>n\<close> records is written: one of the operations on
  the output file, numbers 0 to \<open>n + 2\<close>, raises.
\<close>

definition io_error_occurs :: "nat option \<Rightarrow> nat \<Rightarrow> bool" where
  "io_error_occurs io n = (case io of None \<Rightarrow> False | Some k \<Rightarrow> k \<le> n + 2)"




text \<open>
  A directory with one message file whose name starts with the byte FF, which is not
  UTF-8: \<open>os.scandir\<close> gives the name as the lone surrogate U+DCFF followed by \<open>.eml\<close>.
\<close>

definition undecodable_fs :: filesystem where
  "undecodable_fs =
     [''mail'' \<mapsto> Directory [\<lparr>entry_name = Escaped 255 # wide ''.eml'', entry_is_file = True,
                               entry_open = Some \<lparr>headers = [], payload = []\<rparr>\<rparr>]]"

section \<open>Properties of the schema set\<close>

lemma tracker_union: "add_email_header_tracker xs known = known \<union> set xs"
  by (induction xs arbitrary: known) auto

text \<open>
  C9: every call of the schema-tracking step leaves the schema set equal to the union of
  its previous value and the given header-name set. Hence the set only grows, adding
  names that are already present changes nothing, the visiting order inside one call does
  not matter, and neither does the order in which two files are processed.
\<close>

theorem add_email_header_tracker_union:
  "add_email_header_tracker xs known = known \<union> set xs
   \<and> known \<subseteq> add_email_header_tracker xs known
   \<and> (set xs \<subseteq> known \<longrightarrow> add_email_header_tracker xs known = known)
   \<and> add_email_header_tracker xs (add_email_header_tracker xs known)
       = add_email_header_tracker xs known
   \<and> (set xs = set ys \<longrightarrow>
        add_email_header_tracker xs known = add_email_header_tracker ys known)
   \<and> add_email_header_tracker ys (add_email_header_tracker xs known)
       = add_email_header_tracker xs (add_email_header_tracker ys known)"
  unfolding tracker_union by auto

theorem add_email_header_tracker_union_witness:
  "add_email_header_tracker [''to'', ''from''] {''to''} = {''to''} \<union> set [''to'', ''from'']
   \<and> set [''to''] \<subseteq> {''to''}
   \<and> add_email_header_tracker [''to''] {''to''} = {''to''}
   \<and> set [''to'', ''from''] = set [''from'', ''to'', ''to'']
   \<and> add_email_header_tracker [''to'', ''from''] {''to''}
       = add_email_header_tracker [''from'', ''to'', ''to''] {''to''}"
  using add_email_header_tracker_union [of "[''to'', ''from'']" "{''to''}" "[''from'', ''to'', ''to'']"]
        add_email_header_tracker_union [of "[''to'']" "{''to''}" "[]"]
  by auto

section \<open>Every match binds the group the program reads\<close>

lemma re_m_keeps: "(r', g') \<in> set (re_m ic r (s, g)) \<Longrightarrow> fst ` set g \<subseteq> fst ` set g'"
proof (induction r arbitrary: s g r' g')
  case (Seq a b)
  then obtain m where m: "m \<in> set (re_m ic a (s, g))" "(r', g') \<in> set (re_m ic b m)"
    by auto
  obtain s1 g1 where sg: "m = (s1, g1)" by (cases m)
  from Seq.IH(1)[of s1 g1 s g] Seq.IH(2)[of r' g' s1 g1] m sg show ?case by blast
next
  case (Alt a b)
  then have "(r', g') \<in> set (re_m ic a (s, g)) \<or> (r', g') \<in> set (re_m ic b (s, g))" by simp
  with Alt.IH show ?case by blast
next
  case (Group k a)
  then obtain g1 where g1: "(r', g1) \<in> set (re_m ic a (s, g))" "fst ` set g' = insert k (fst ` set g1)"
    by auto
  with Group.IH[of r' g1 s g] show ?case by blast
qed (auto split: option.splits list.splits if_splits)

lemma re_m_binds: "binds n r \<Longrightarrow> (r', g') \<in> set (re_m ic r (s, g)) \<Longrightarrow> n \<in> fst ` set g'"
proof (induction r arbitrary: s g r' g')
  case (Seq a b)
  then obtain m where m: "m \<in> set (re_m ic a (s, g))" "(r', g') \<in> set (re_m ic b m)"
    by auto
  obtain s1 g1 where sg: "m = (s1, g1)" by (cases m)
  show ?case
  proof (cases "binds n a")
    case True
    with Seq.IH(1)[of s1 g1 s g] m sg have "n \<in> fst ` set g1" by blast
    with re_m_keeps[of r' g' ic b s1 g1] m sg show ?thesis by blast
  next
    case False
    with Seq.prems have "binds n b" by simp
    with Seq.IH(2)[of r' g' s1 g1] m sg show ?thesis by blast
  qed
next
  case (Alt a b)
  then have "(r', g') \<in> set (re_m ic a (s, g)) \<or> (r', g') \<in> set (re_m ic b (s, g))" by simp
  with Alt show ?case by auto
next
  case (Group k a)
  then obtain g1 where g1: "(r', g1) \<in> set (re_m ic a (s, g))" "fst ` set g' = insert k (fst ` set g1)"
    by auto
  with Group.IH[of r' g1 s g] Group.prems show ?case by auto
qed simp_all

lemma re_search_binds: "binds n r \<Longrightarrow> re_search ic r s = Some g \<Longrightarrow> map_of g n \<noteq> None"
proof (induction s)
  case Nil
  then obtain r' l where "re_m ic r ([], []) = (r', g) # l"
    by (auto split: list.splits)
  then have "(r', g) \<in> set (re_m ic r ([], []))" by simp
  with re_m_binds[OF Nil(1)] show ?case by (simp add: map_of_eq_None_iff)
next
  case (Cons c s)
  show ?case
  proof (cases "re_m ic r (c # s, [])")
    case Nil
    with Cons show ?thesis by simp
  next
    case (Cons m l)
    with Cons.prems have "(fst m, g) \<in> set (re_m ic r (c # s, []))" by auto
    with re_m_binds[OF Cons.prems(1)] show ?thesis by (simp add: map_of_eq_None_iff)
  qed
qed

lemma artifact_total: "binds n r \<Longrightarrow> \<exists>t. artifact r n body = Inr t"
  using re_search_binds[of n r True body]
  by (auto simp: artifact_def group_strip_def split: option.splits)

lemma pull_artifacts_total: "\<exists>user pwd ip. pull_artifacts body = Inr (user, pwd, ip)"
proof -
  obtain u where u: "artifact user_re 2 body = Inr u"
    using artifact_total[of 2 user_re body] by (auto simp: user_re_def)
  obtain p where p: "artifact pwd_re 2 body = Inr p"
    using artifact_total[of 2 pwd_re body] by (auto simp: pwd_re_def)
  obtain i where i: "artifact ip_re (Suc 0) body = Inr i"
    using artifact_total[of "Suc 0" ip_re body] by (auto simp: ip_re_def)
  show ?thesis by (simp add: pull_artifacts_def u p i)
qed

lemma fold_update_map_of:
  "map_of (fold (\<lambda>x h. AList.update x (f x) h) xs h0) k
     = (if k \<in> set xs then Some (f k) else map_of h0 k)"
  by (induction xs arbitrary: h0) (auto simp: update_conv')

lemma fold_update_keys:
  "fst ` set (fold (\<lambda>x h. AList.update x (f x) h) xs h0) = set xs \<union> fst ` set h0"
proof -
  have "dom (map_of (fold (\<lambda>x h. AList.update x (f x) h) xs h0)) = set xs \<union> dom (map_of h0)"
    by (auto simp: fold_update_map_of dom_def)
  then show ?thesis by (simp add: dom_map_of_conv_image_fst)
qed

section \<open>What \<open>parse_header\<close> returns\<close>

lemma map_of_fold_update_if:
  "map_of (fold (\<lambda>x h. if P x then AList.update x (a x) h else AList.update x (b x) h) xs h0) k
     = (if k \<in> set xs then Some (if P k then a k else b k) else map_of h0 k)"
  by (induction xs arbitrary: h0) (auto simp: update_conv')

lemma lower_char_idem: "lower_char (lower_char c) = lower_char c"
  by (auto simp: lower_char_def Let_def)

lemma lower_idem: "lower (lower s) = lower s"
  by (simp add: lower_def lower_char_idem)

lemma count_list_occurrences:
  "count_list (map lower (keys m)) x = length (occurrences m x)"
proof -
  have "count_list (map lower (map fst hs)) x = length (map snd (filter (\<lambda>(k, v). lower k = x) hs))" for hs
    by (induction hs) auto
  then show ?thesis by (simp add: keys_def occurrences_def)
qed

lemma get_occurrences:
  "x \<in> set (map lower (keys m)) \<Longrightarrow> get m x = (case occurrences m x of [] \<Rightarrow> None | v # _ \<Rightarrow> Some v)"
proof -
  assume "x \<in> set (map lower (keys m))"
  then have x: "lower x = x" by (auto simp: lower_idem)
  have "(case filter (\<lambda>(k, v). lower k = x) hs of [] \<Rightarrow> None | (k, v) # _ \<Rightarrow> Some v)
        = (case map snd (filter (\<lambda>(k, v). lower k = x) hs) of [] \<Rightarrow> None | v # _ \<Rightarrow> Some v)" for hs
    by (induction hs) auto
  then show ?thesis by (simp add: get_def occurrences_def x)
qed

lemma get_all_occurrences:
  "x \<in> set (map lower (keys m)) \<Longrightarrow>
   get_all m x = (if occurrences m x = [] then None else Some (occurrences m x))"
proof -
  assume "x \<in> set (map lower (keys m))"
  then have x: "lower x = x" by (auto simp: lower_idem)
  show ?thesis by (simp add: get_all_def occurrences_def x Let_def)
qed

lemma header_value_get:
  assumes "x \<in> set (map lower (keys m))"
  shows "(if x \<notin> set (filter (\<lambda>y. count_list (map lower (keys m)) y > 1) (map lower (keys m)))
          then of_get (get m x) else of_get_all (get_all m x)) = header_value m x"
proof -
  have c: "count_list (map lower (keys m)) x = length (occurrences m x)"
    by (rule count_list_occurrences)
  from assms have "count_list (map lower (keys m)) x \<noteq> 0"
    by (simp add: count_list_0_iff)
  with c have ne: "occurrences m x \<noteq> []" by auto
  show ?thesis
  proof (cases "occurrences m x")
    case Nil
    with ne show ?thesis by simp
  next
    case (Cons v vs)
    then show ?thesis using assms c
      by (cases vs) (simp_all add: header_value_def get_occurrences get_all_occurrences of_get_def of_get_all_def)
  qed
qed


lemma parse_header_unfold:
  assumes "pull_artifacts (payload (file_message file)) = Inr (user, pwd, ip)"
  shows "parse_header file st =
     Inr (AList.update ''ip'' (Scalar (wide ip))
           (AList.update ''password'' (Scalar (wide pwd))
             (AList.update ''username'' (Scalar (wide user))
               (AList.update ''body'' (Scalar (wide (payload (file_message file))))
                 (fold (\<lambda>x header.
                      if x \<notin> set (filter (\<lambda>y. count_list (map lower (keys (file_message file))) y > 1)
                                     (map lower (keys (file_message file))))
                      then AList.update x (of_get (get (file_message file) x)) header
                      else AList.update x (of_get_all (get_all (file_message file) x)) header)
                   (remdups (map lower (keys (file_message file))))
                   (AList.update ''source-email-file''
                      (Scalar (basename (lower_text (file_name file)))) []))))),
          st\<lparr>email_header_fields :=
               email_header_fields st \<union> set (map lower (keys (file_message file)))\<rparr>)"
  unfolding parse_header_def Let_def get_payload_def tracker_union assms
  by simp

lemma parse_header_lookup:
  assumes "pull_artifacts (payload (file_message file)) = Inr (user, pwd, ip)"
    and "parse_header file st = Inr (header, st')"
  shows "map_of header k =
        (if k = ''ip'' then Some (Scalar (wide ip))
         else if k = ''password'' then Some (Scalar (wide pwd))
         else if k = ''username'' then Some (Scalar (wide user))
         else if k = ''body'' then Some (Scalar (wide (payload (file_message file))))
         else if k \<in> set (map lower (keys (file_message file)))
              then Some (header_value (file_message file) k)
         else if k = ''source-email-file'' then Some (Scalar (basename (lower_text (file_name file))))
         else None)"
proof -
  let ?m = "file_message file"
  let ?hs = "map lower (keys ?m)"
  let ?dup = "set (filter (\<lambda>y. count_list ?hs y > 1) ?hs)"
  let ?fold = "fold (\<lambda>x header.
                      if x \<notin> ?dup
                      then AList.update x (of_get (get ?m x)) header
                      else AList.update x (of_get_all (get_all ?m x)) header)
                   (remdups ?hs)
                   (AList.update ''source-email-file''
                      (Scalar (basename (lower_text (file_name file)))) [])"
  have h: "header = AList.update ''ip'' (Scalar (wide ip))
           (AList.update ''password'' (Scalar (wide pwd))
             (AList.update ''username'' (Scalar (wide user))
               (AList.update ''body'' (Scalar (wide (payload ?m))) ?fold)))"
    using assms(2) unfolding parse_header_unfold[OF assms(1)] by simp
  have f: "map_of ?fold k =
        (if k \<in> set ?hs then Some (header_value ?m k)
         else if k = ''source-email-file'' then Some (Scalar (basename (lower_text (file_name file))))
         else None)"
  proof (cases "k \<in> set ?hs")
    case True
    have "map_of ?fold k = Some (if k \<notin> ?dup then of_get (get ?m k) else of_get_all (get_all ?m k))"
      unfolding map_of_fold_update_if using True by simp
    also have "\<dots> = Some (header_value ?m k)"
      using header_value_get[OF True] by simp
    finally show ?thesis using True by simp
  next
    case False
    have "map_of ?fold k = map_of (AList.update ''source-email-file''
                      (Scalar (basename (lower_text (file_name file)))) []) k"
      unfolding map_of_fold_update_if using False by simp
    then show ?thesis using False by (simp add: update_conv')
  qed
  show ?thesis unfolding h by (simp only: update_conv' fun_upd_apply f split: if_splits)
qed

lemma parse_header_schema:
  assumes "parse_header file st = Inr (header, st')"
  shows "st' = st\<lparr>email_header_fields :=
                   email_header_fields st \<union> set (map lower (keys (file_message file)))\<rparr>"
proof -
  obtain user pwd ip where p: "pull_artifacts (payload (file_message file)) = Inr (user, pwd, ip)"
    using pull_artifacts_total by blast
  show ?thesis using assms unfolding parse_header_unfold[OF p] by simp
qed

lemma parse_header_total: "\<exists>header st'. parse_header file st = Inr (header, st')"
proof -
  obtain user pwd ip where p: "pull_artifacts (payload (file_message file)) = Inr (user, pwd, ip)"
    using pull_artifacts_total by blast
  show ?thesis unfolding parse_header_unfold[OF p] by blast
qed

section \<open>The labelled artifacts: user name and password\<close>

lemma of_char_lower:
  "(of_char (lower_char c) :: nat) =
     (if (65 \<le> (of_char c :: nat) \<and> (of_char c :: nat) \<le> 90)
         \<or> (192 \<le> (of_char c :: nat) \<and> (of_char c :: nat) \<le> 214)
         \<or> (216 \<le> (of_char c :: nat) \<and> (of_char c :: nat) \<le> 222)
      then of_char c + 32 else of_char c)"
  by (auto simp: lower_char_def Let_def)

lemma lower_char_eq_iff: "lower_char c = p \<longleftrightarrow> (of_char (lower_char c) :: nat) = of_char p"
  by auto

lemma lower_char_space: "lower_char c = CHR '' '' \<longleftrightarrow> c = CHR '' ''"
proof -
  have "(of_char c :: nat) = of_char (CHR '' '') \<longleftrightarrow> c = CHR '' ''"
    by (rule of_char_eq_iff)
  then have "(of_char c :: nat) = 32 \<longleftrightarrow> c = CHR '' ''" by simp
  then show ?thesis
    unfolding lower_char_eq_iff of_char_lower by (auto split: if_splits)
qed

lemma lower_char_colon: "lower_char c = CHR '':'' \<longleftrightarrow> c = CHR '':''"
proof -
  have "(of_char c :: nat) = of_char (CHR '':'') \<longleftrightarrow> c = CHR '':''"
    by (rule of_char_eq_iff)
  then have "(of_char c :: nat) = 58 \<longleftrightarrow> c = CHR '':''" by simp
  then show ?thesis
    unfolding lower_char_eq_iff of_char_lower by (auto split: if_splits)
qed

lemma lower_char_period: "lower_char c = CHR ''.'' \<longleftrightarrow> c = CHR ''.''"
proof -
  have "(of_char c :: nat) = of_char (CHR ''.'') \<longleftrightarrow> c = CHR ''.''"
    by (rule of_char_eq_iff)
  then have "(of_char c :: nat) = 46 \<longleftrightarrow> c = CHR ''.''" by simp
  then show ?thesis
    unfolding lower_char_eq_iff of_char_lower by (auto split: if_splits)
qed

lemma lower_char_punct [simp]:
  "lower_char CHR '' '' = CHR '' ''"
  "lower_char CHR '':'' = CHR '':''"
  "lower_char CHR ''.'' = CHR ''.''"
  by (simp_all add: lower_char_def)

lemma item_lits [simp]:
  "lower_char c = CHR '' '' \<longleftrightarrow> c = CHR '' ''"
  "lower_char c = CHR '':'' \<longleftrightarrow> c = CHR '':''"
  "lower_char c = CHR ''.'' \<longleftrightarrow> c = CHR ''.''"
  by (rule lower_char_space lower_char_colon lower_char_period)+

lemma str_m_eq:
  "str_m True k s =
     (if length k \<le> length s \<and> lower (take (length k) s) = lower k
      then Some (drop (length k) s) else None)"
proof (induction k arbitrary: s)
  case Nil
  then show ?case by (simp add: lower_def)
next
  case (Cons p ps)
  then show ?case by (cases s) (auto simp: lower_def)
qed

lemma star_m_first: "\<exists>l. star_m ok s = dropWhile ok s # l"
  by (induction s) auto

lemma star_then:
  assumes "\<And>c cs. ok c \<Longrightarrow> F (c # cs, g) = []"
  shows "concat (map F (map (\<lambda>r. (r, g)) (star_m ok s))) = F (dropWhile ok s, g)"
  using assms by (induction s) auto

lemma take_dropWhile_length: "take (length s - length (dropWhile P s)) s = takeWhile P s"
proof -
  have "length (takeWhile P s) + length (dropWhile P s) = length s"
    by (metis length_append takeWhile_dropWhile_id)
  then have "length s - length (dropWhile P s) = length (takeWhile P s)"
    by arith
  then show ?thesis using takeWhile_eq_take[of P s] by simp
qed


declare re_search.simps [simp del] first_position.simps [simp del]

lemma first_groups_append:
  "first_groups (xs @ ys) = (case first_groups xs of Some g \<Rightarrow> Some g | None \<Rightarrow> first_groups ys)"
  by (cases xs) (simp_all add: first_groups_def)

lemma first_groups_Nil [simp]: "first_groups [] = None"
  by (simp add: first_groups_def)

lemma first_groups_None: "first_groups ms = None \<longleftrightarrow> ms = []"
  by (cases ms) (simp_all add: first_groups_def)

lemma re_search_Nil: "re_search ic r [] = first_groups (re_m ic r ([], []))"
  by (subst re_search.simps) (simp add: first_groups_def split: list.splits)

lemma re_search_Cons:
  "re_search ic r (c # t) =
     (case first_groups (re_m ic r (c # t, [])) of Some g \<Rightarrow> Some g | None \<Rightarrow> re_search ic r t)"
  by (subst re_search.simps) (simp add: first_groups_def split: list.splits)

lemma first_position_Nil: "first_position f [] = f []"
  by (subst first_position.simps) (simp split: option.splits)

lemma first_position_Cons:
  "first_position f (c # t) = (case f (c # t) of Some r \<Rightarrow> Some r | None \<Rightarrow> first_position f t)"
  by (subst first_position.simps) (simp split: option.splits)

lemma item_space: "item_match True (Lit CHR '' '') = (\<lambda>c. c = CHR '' '')"
  by (rule ext) simp

lemma item_dot: "item_match True Dot = (\<lambda>c. c \<noteq> newline)"
  by (rule ext) simp

lemma line_match:
  "first_groups (re_m True (Group 2 (Star Dot)) (s, g)) = Some ((2, rest_of_line s) # g)"
proof -
  obtain l where "star_m (\<lambda>c. c \<noteq> newline) s = dropWhile (\<lambda>c. c \<noteq> newline) s # l"
    using star_m_first by blast
  then show ?thesis
    by (simp add: item_dot first_groups_def rest_of_line_def take_dropWhile_length)
qed

lemma tail_match:
  "first_groups (re_m True (Seq (Star (Lit CHR '' '')) (Seq (Atom (Lit CHR '':'')) (Group 2 (Star Dot)))) (s, g))
     = (case dropWhile (\<lambda>c. c = CHR '' '') s of
          [] \<Rightarrow> None
        | c # rest \<Rightarrow> if c = CHR '':'' then Some ((2, rest_of_line rest) # g) else None)"
proof -
  let ?X = "Seq (Atom (Lit CHR '':'')) (Group 2 (Star Dot))"
  have fail: "re_m True ?X (c # cs, g) = []" if "c = CHR '' ''" for c cs
    using that by simp
  have "re_m True (Seq (Star (Lit CHR '' '')) ?X) (s, g)
          = re_m True ?X (dropWhile (\<lambda>c. c = CHR '' '') s, g)"
    using star_then[of "\<lambda>c. c = CHR '' ''" "re_m True ?X" g s] fail
    by (simp add: item_space)
  moreover have "first_groups (re_m True ?X (t, g))
     = (case t of [] \<Rightarrow> None
        | c # rest \<Rightarrow> if c = CHR '':'' then Some ((2, rest_of_line rest) # g) else None)" for t
  proof (cases t)
    case Nil
    then show ?thesis by simp
  next
    case (Cons c rest)
    then show ?thesis using line_match[of rest g] by simp
  qed
  ultimately show ?thesis by simp
qed

lemma after_keyword_str_m:
  "after_keyword k s =
     (case str_m True k s of
        None \<Rightarrow> None
      | Some r \<Rightarrow> (case dropWhile (\<lambda>c. c = CHR '' '') r of
                    [] \<Rightarrow> None
                  | c # rest \<Rightarrow> if c = CHR '':'' then Some rest else None))"
  by (simp add: after_keyword_def str_m_eq)

lemma keywords_match:
  fixes kws s w
  defines "T \<equiv> \<lambda>r. re_m True (Seq (Star (Lit CHR '' '')) (Seq (Atom (Lit CHR '':'')) (Group 2 (Star Dot))))
                     (r, [(1, w r)])"
  shows "(case first_groups (concat (map T (keyword_rests kws s))) of
            None \<Rightarrow> None | Some g \<Rightarrow> Some (map_of g 2))
         = map_option (\<lambda>rest. Some (rest_of_line rest)) (first_keyword kws s)"
proof (induction kws)
  case Nil
  then show ?case by (simp add: keyword_rests_def)
next
  case (Cons k kws)
  have split: "keyword_rests (k # kws) s
      = (case str_m True k s of None \<Rightarrow> [] | Some r \<Rightarrow> [r]) @ keyword_rests kws s"
    by (simp add: keyword_rests_def)
  show ?case
  proof (cases "str_m True k s")
    case None
    with Cons split show ?thesis by (simp add: after_keyword_str_m)
  next
    case (Some r)
    define d where "d = dropWhile (\<lambda>c. c = CHR '' '') r"
    have t: "first_groups (T r) = (case d of
          [] \<Rightarrow> None
        | c # rest \<Rightarrow> if c = CHR '':'' then Some ((2, rest_of_line rest) # [(1, w r)]) else None)"
      unfolding T_def d_def by (rule tail_match)
    have a: "after_keyword k s = (case d of
          [] \<Rightarrow> None
        | c # rest \<Rightarrow> if c = CHR '':'' then Some rest else None)"
      unfolding d_def by (simp add: after_keyword_str_m Some)
    have c: "concat (map T (keyword_rests (k # kws) s)) = T r @ concat (map T (keyword_rests kws s))"
      by (simp add: split Some)
    show ?thesis
    proof (cases d)
      case Nil
      with t a have "first_groups (T r) = None" "after_keyword k s = None" by simp_all
      with Cons show ?thesis by (simp add: c first_groups_append)
    next
      case (Cons x rest)
      show ?thesis
      proof (cases "x = CHR '':''")
        case True
        with t a Cons have "first_groups (T r) = Some [(2, rest_of_line rest), (1, w r)]"
          "after_keyword k s = Some rest" by simp_all
        then show ?thesis by (simp add: c first_groups_append)
      next
        case False
        with t a Cons have "first_groups (T r) = None" "after_keyword k s = None" by simp_all
        with Cons.IH show ?thesis by (simp add: c first_groups_append)
      qed
    qed
  qed
qed


lemma alt_keywords:
  "re_m True (Alt (Str a) (Str b)) (s, g) = map (\<lambda>r. (r, g)) (keyword_rests [a, b] s)"
  "re_m True (Alt (Str a) (Alt (Str b) (Alt (Str c) (Alt (Str d) (Str e))))) (s, g)
     = map (\<lambda>r. (r, g)) (keyword_rests [a, b, c, d, e] s)"
  by (simp_all add: keyword_rests_def split: option.splits)

lemma labelled_re_match:
  assumes "\<And>s g. re_m True A (s, g) = map (\<lambda>r. (r, g)) (keyword_rests kws s)"
  shows "(case first_groups (re_m True
            (Seq (Group 1 A)
               (Seq (Star (Lit CHR '' '')) (Seq (Atom (Lit CHR '':'')) (Group 2 (Star Dot))))) (s, []))
          of None \<Rightarrow> None | Some g \<Rightarrow> Some (map_of g 2))
         = map_option (\<lambda>rest. Some (rest_of_line rest)) (first_keyword kws s)"
proof -
  let ?tail = "Seq (Star (Lit CHR '' '')) (Seq (Atom (Lit CHR '':'')) (Group 2 (Star Dot)))"
  have "re_m True (Seq (Group 1 A) ?tail) (s, [])
      = concat (map (\<lambda>r. re_m True ?tail (r, [(1, take (length s - length r) s)]))
                 (keyword_rests kws s))"
    by (simp add: assms o_def del: re_m.simps(5) re_m.simps(3) re_m.simps(2))
       (simp add: assms o_def)
  then show ?thesis
    using keywords_match[of "\<lambda>r. take (length s - length r) s" kws s] by simp
qed

lemma labelled_search:
  assumes "\<And>s. (case first_groups (re_m True r (s, [])) of None \<Rightarrow> None | Some g \<Rightarrow> Some (map_of g 2))
         = map_option (\<lambda>rest. Some (rest_of_line rest)) (first_keyword kws s)"
  shows "(case re_search True r body of None \<Rightarrow> None | Some g \<Rightarrow> Some (map_of g 2))
         = map_option (\<lambda>rest. Some (rest_of_line rest)) (first_position (first_keyword kws) body)"
proof (induction body)
  case Nil
  show ?case using assms[of "[]"] by (simp add: re_search_Nil first_position_Nil)
next
  case (Cons c t)
  show ?case
  proof (cases "first_keyword kws (c # t)")
    case None
    with assms[of "c # t"] have "first_groups (re_m True r (c # t, [])) = None"
      by (simp split: option.splits)
    with None Cons show ?thesis by (simp add: re_search_Cons first_position_Cons)
  next
    case (Some rest)
    with assms[of "c # t"] obtain g where
      "first_groups (re_m True r (c # t, [])) = Some g" "map_of g 2 = Some (rest_of_line rest)"
      by (auto split: option.splits)
    with Some show ?thesis by (simp add: re_search_Cons first_position_Cons)
  qed
qed

lemma labelled_artifact:
  assumes "\<And>s. (case first_groups (re_m True r (s, [])) of None \<Rightarrow> None | Some g \<Rightarrow> Some (map_of g 2))
         = map_option (\<lambda>rest. Some (rest_of_line rest)) (first_keyword kws s)"
  shows "artifact r 2 body = Inr (labelled_value kws body)"
  using labelled_search[of r kws body, OF assms]
  by (auto simp: artifact_def labelled_value_def group_strip_def split: option.splits)

lemma user_artifact: "artifact user_re 2 body = Inr (labelled_value [''username'', ''email''] body)"
  unfolding user_re_def by (rule labelled_artifact, rule labelled_re_match, rule alt_keywords)

lemma pwd_artifact:
  "artifact pwd_re 2 body
     = Inr (labelled_value [''email password'', ''password'', ''pass'', ''pd'', ''ps''] body)"
  unfolding pwd_re_def by (rule labelled_artifact, rule labelled_re_match, rule alt_keywords)

section \<open>The IP artifact\<close>

lemma repeat_then:
  assumes "\<And>c cs. ok c \<Longrightarrow> F (c # cs) = []"
  shows "concat (map F (repeat_m ok lo hi s))
     = (if lo \<le> length (takeWhile ok s) \<and> length (takeWhile ok s) \<le> hi
        then F (dropWhile ok s) else [])"
proof (induction hi arbitrary: lo s)
  case 0
  then show ?case using assms by (cases s) auto
next
  case (Suc hi)
  show ?case
  proof (cases s)
    case Nil
    then show ?thesis by auto
  next
    case (Cons c cs)
    then show ?thesis using assms Suc[of "lo - 1" cs] by auto
  qed
qed

lemma repeat_none:
  "length (takeWhile ok s) < lo \<Longrightarrow> repeat_m ok lo hi s = []"
proof (induction hi arbitrary: lo s)
  case 0
  then show ?case by simp
next
  case (Suc hi)
  show ?case
  proof (cases s)
    case Nil
    then show ?thesis using Suc.prems by simp
  next
    case (Cons c cs)
    show ?thesis
    proof (cases "ok c")
      case True
      with Suc.prems Cons have "length (takeWhile ok cs) < lo - 1" by simp
      from Suc.IH[OF this] True Cons Suc.prems show ?thesis by simp
    next
      case False
      with Cons Suc.prems show ?thesis by simp
    qed
  qed
qed

lemma repeat_first:
  "lo \<le> hi \<Longrightarrow> lo \<le> length (takeWhile ok s) \<Longrightarrow>
   \<exists>l. repeat_m ok lo hi s = drop (min (length (takeWhile ok s)) hi) s # l"
proof (induction hi arbitrary: lo s)
  case 0
  then show ?case by simp
next
  case (Suc hi)
  show ?case
  proof (cases s)
    case Nil
    then show ?thesis using Suc.prems by simp
  next
    case (Cons c cs)
    show ?thesis
    proof (cases "ok c")
      case True
      have 1: "lo - 1 \<le> hi" using Suc.prems by simp
      have 2: "lo - 1 \<le> length (takeWhile ok cs)" using Suc.prems True Cons by simp
      from Suc.IH[OF 1 2] obtain l where
        "repeat_m ok (lo - 1) hi cs = drop (min (length (takeWhile ok cs)) hi) cs # l" by blast
      with True Cons show ?thesis by simp
    next
      case False
      with Cons Suc.prems show ?thesis by simp
    qed
  qed
qed


lemma digit_not_period: "is_digit c \<Longrightarrow> c \<noteq> CHR ''.''"
  by (auto simp: is_digit_def)

lemma digit_not_colon: "is_digit c \<Longrightarrow> c \<noteq> CHR '':''"
  by (auto simp: is_digit_def)

lemma item_digit: "item_match True Digit = is_digit"
  by (rule ext) simp

lemma item_colon: "item_match True (Lit CHR '':'') = (\<lambda>c. c = CHR '':'')"
  by (rule ext) simp

lemma group_then:
  "re_m True (Seq (Repeat 1 3 Digit) (Seq (Atom (Lit CHR ''.'')) X)) (s, g)
     = (case digit_group s of None \<Rightarrow> [] | Some (a, s1) \<Rightarrow> re_m True X (s1, g))"
proof -
  let ?F = "\<lambda>r. re_m True (Seq (Atom (Lit CHR ''.'')) X) (r, g)"
  have fail: "?F (c # cs) = []" if "is_digit c" for c cs
    using digit_not_period[OF that] by simp
  have gen: "(if 1 \<le> n \<and> n \<le> 3 then ?F d else [])
      = (case (if 1 \<le> n \<and> n \<le> 3
               then (case d of [] \<Rightarrow> None
                     | c # rest \<Rightarrow> if c = CHR ''.'' then Some (tw, rest) else None)
               else None)
         of None \<Rightarrow> [] | Some (a, s1) \<Rightarrow> re_m True X (s1, g))" for n :: nat and d tw
    by (cases d) simp_all
  have "re_m True (Seq (Repeat 1 3 Digit) (Seq (Atom (Lit CHR ''.'')) X)) (s, g)
          = concat (map ?F (repeat_m is_digit 1 3 s))"
    by (simp add: item_digit o_def)
  also have "\<dots> = (if 1 \<le> length (takeWhile is_digit s) \<and> length (takeWhile is_digit s) \<le> 3
                      then ?F (dropWhile is_digit s) else [])"
    using fail by (rule repeat_then)
  also have "\<dots> = (case digit_group s of None \<Rightarrow> [] | Some (a, s1) \<Rightarrow> re_m True X (s1, g))"
    unfolding digit_group_def Let_def by (rule gen)
  finally show ?thesis .
qed

lemma last_match_none: "last_group s = None \<Longrightarrow> re_m True (Repeat 1 3 Digit) (s, g) = []"
proof -
  assume "last_group s = None"
  then have "takeWhile is_digit s = []"
    by (cases "takeWhile is_digit s") (simp_all add: last_group_def)
  then have "repeat_m is_digit 1 3 s = []" by (intro repeat_none) simp
  then show ?thesis by (simp add: item_digit)
qed

lemma last_match_some:
  "last_group s = Some d \<Longrightarrow> \<exists>l. re_m True (Repeat 1 3 Digit) (s, g) = (drop (length d) s, g) # l"
proof -
  assume a: "last_group s = Some d"
  then have ne: "takeWhile is_digit s \<noteq> []" and d: "d = take 3 (takeWhile is_digit s)"
    by (auto simp: last_group_def Let_def split: if_splits)
  from ne have "1 \<le> length (takeWhile is_digit s)" by (cases "takeWhile is_digit s") simp_all
  from repeat_first[OF _ this, of 3] obtain l where
    l: "repeat_m is_digit 1 3 s = drop (min (length (takeWhile is_digit s)) 3) s # l" by auto
  have "length d = min (length (takeWhile is_digit s)) 3" using d by simp
  with l show ?thesis by (simp add: item_digit)
qed

lemma digit_group_text: "digit_group s = Some (a, s1) \<Longrightarrow> s = a @ CHR ''.'' # s1"
proof -
  assume a: "digit_group s = Some (a, s1)"
  have "takeWhile is_digit s @ dropWhile is_digit s = s" by (rule takeWhile_dropWhile_id)
  moreover from a have "a = takeWhile is_digit s \<and> dropWhile is_digit s = CHR ''.'' # s1"
    unfolding digit_group_def Let_def by (auto split: if_splits list.splits)
  ultimately show ?thesis by simp
qed

lemma digit_group_digits:
  "digit_group s = Some (a, s1) \<Longrightarrow> a \<noteq> [] \<and> (\<forall>c\<in>set a. is_digit c)"
  unfolding digit_group_def Let_def
  by (auto split: if_splits list.splits dest: set_takeWhileD)

lemma last_group_text: "last_group s = Some d \<Longrightarrow> take (length d) s = d"
proof -
  assume "last_group s = Some d"
  then have d: "d = take 3 (takeWhile is_digit s)"
    by (auto simp: last_group_def Let_def split: if_splits)
  have "takeWhile is_digit s = take (length (takeWhile is_digit s)) s"
    by (rule takeWhile_eq_take)
  then have "d = take (min 3 (length (takeWhile is_digit s))) s"
    using d by (metis take_take)
  moreover have "length d = min 3 (length (takeWhile is_digit s))"
    using d by (simp add: min.commute)
  ultimately show ?thesis by simp
qed

lemma last_group_digits:
  "last_group s = Some d \<Longrightarrow> d \<noteq> [] \<and> (\<forall>c\<in>set d. is_digit c)"
  by (auto simp: last_group_def Let_def split: if_splits dest!: in_set_takeD set_takeWhileD)

lemma take_prefix_length: "s = t @ r \<Longrightarrow> take (length s - length r) s = t"
  by simp

lemma quad_match:
  "first_groups (re_m True
     (Group 1
       (Seq (Repeat 1 3 Digit) (Seq (Atom (Lit CHR ''.''))
       (Seq (Repeat 1 3 Digit) (Seq (Atom (Lit CHR ''.''))
       (Seq (Repeat 1 3 Digit) (Seq (Atom (Lit CHR ''.''))
       (Repeat 1 3 Digit)))))))) (s, g))
   = map_option (\<lambda>t. (1, t) # g) (dotted_quad s)"
proof -
  let ?R = "Repeat 1 3 Digit"
  let ?P = "Atom (Lit CHR ''.'')"
  let ?Q = "Seq ?R (Seq ?P (Seq ?R (Seq ?P (Seq ?R (Seq ?P ?R)))))"
  have q: "re_m True ?Q (s, g) =
     (case digit_group s of None \<Rightarrow> [] | Some (a, s1) \<Rightarrow>
       (case digit_group s1 of None \<Rightarrow> [] | Some (b, s2) \<Rightarrow>
         (case digit_group s2 of None \<Rightarrow> [] | Some (c, s3) \<Rightarrow> re_m True ?R (s3, g))))"
    by (simp only: group_then)
  have g1: "re_m True (Group 1 ?Q) (s, g)
      = map (\<lambda>(r, g'). (r, (1, take (length s - length r) s) # g')) (re_m True ?Q (s, g))"
    by (simp only: re_m.simps)
  show ?thesis
  proof (cases "digit_group s")
    case None
    then show ?thesis unfolding g1 q by (simp add: dotted_quad_def)
  next
    case A: (Some as1)
    obtain a s1 where as1: "as1 = (a, s1)" by (cases as1)
    show ?thesis
    proof (cases "digit_group s1")
      case None
      then show ?thesis unfolding g1 q by (simp add: dotted_quad_def A as1)
    next
      case B: (Some bs2)
      obtain b s2 where bs2: "bs2 = (b, s2)" by (cases bs2)
      show ?thesis
      proof (cases "digit_group s2")
        case None
        then show ?thesis unfolding g1 q by (simp add: dotted_quad_def A as1 B bs2)
      next
        case C: (Some cs3)
        obtain c s3 where cs3: "cs3 = (c, s3)" by (cases cs3)
        show ?thesis
        proof (cases "last_group s3")
          case None
          then have "re_m True ?R (s3, g) = []" by (rule last_match_none)
          then have rq: "re_m True ?Q (s, g) = []"
            unfolding q by (simp only: A as1 B bs2 C cs3 option.case prod.case)
          show ?thesis unfolding g1 rq
            by (simp add: dotted_quad_def A as1 B bs2 C cs3 None)
        next
          case D: (Some d)
          define r where "r = drop (length d) s3"
          from last_match_some[OF D, of g] obtain l where
            l: "re_m True ?R (s3, g) = (r, g) # l" unfolding r_def by blast
          have "s3 = d @ r" unfolding r_def using last_group_text[OF D]
            by (metis append_take_drop_id)
          then have "s = (a @ ''.'' @ b @ ''.'' @ c @ ''.'' @ d) @ r"
            using digit_group_text[OF A[unfolded as1]] digit_group_text[OF B[unfolded bs2]]
              digit_group_text[OF C[unfolded cs3]] by simp
          then have tk: "take (length s - length r) s = a @ ''.'' @ b @ ''.'' @ c @ ''.'' @ d"
            by (rule take_prefix_length)
          have rq: "re_m True ?Q (s, g) = (r, g) # l"
            unfolding q by (simp only: A as1 B bs2 C cs3 option.case prod.case l)
          show ?thesis unfolding g1 rq
            by (simp add: dotted_quad_def A as1 B bs2 C cs3 D first_groups_def tk)
        qed
      qed
    qed
  qed
qed


lemma quad_fails_on_colon:
  "re_m True
     (Group 1
       (Seq (Repeat 1 3 Digit) (Seq (Atom (Lit CHR ''.''))
       (Seq (Repeat 1 3 Digit) (Seq (Atom (Lit CHR ''.''))
       (Seq (Repeat 1 3 Digit) (Seq (Atom (Lit CHR ''.''))
       (Repeat 1 3 Digit)))))))) ((CHR '':'') # cs, g) = []"
proof -
  have "\<not> is_digit CHR '':''" by (simp add: is_digit_def)
  then have "digit_group ((CHR '':'') # cs) = None" by (simp add: digit_group_def)
  then have "dotted_quad ((CHR '':'') # cs) = None" by (simp add: dotted_quad_def)
  then show ?thesis using quad_match[of "(CHR '':'') # cs" g]
    by (simp only: first_groups_None option.map)
qed

lemma dotted_quad_colon: "dotted_quad ((CHR '':'') # cs) = None"
proof -
  have "\<not> is_digit CHR '':''" by (simp add: is_digit_def)
  then have "digit_group ((CHR '':'') # cs) = None" by (simp add: digit_group_def)
  then show ?thesis by (simp add: dotted_quad_def)
qed

lemma ip_match:
  "first_groups (re_m True ip_re (s, []))
     = map_option (\<lambda>t. [(1, t)]) (dotted_quad (dropWhile (\<lambda>c. c = CHR '':'') s))"
proof -
  let ?G = "Group 1
       (Seq (Repeat 1 3 Digit) (Seq (Atom (Lit CHR ''.''))
       (Seq (Repeat 1 3 Digit) (Seq (Atom (Lit CHR ''.''))
       (Seq (Repeat 1 3 Digit) (Seq (Atom (Lit CHR ''.''))
       (Repeat 1 3 Digit)))))))"
  have fail: "re_m True ?G (c # cs, []) = []" if "c = CHR '':''" for c cs
    unfolding that by (rule quad_fails_on_colon)
  have "re_m True ip_re (s, []) = concat (map (re_m True ?G) (map (\<lambda>r. (r, [])) (star_m (\<lambda>c. c = CHR '':'') s)))"
    unfolding ip_re_def by (simp only: re_m.simps item_colon)
  also have "\<dots> = re_m True ?G (dropWhile (\<lambda>c. c = CHR '':'') s, [])"
    using fail by (rule star_then)
  finally show ?thesis by (simp only: quad_match)
qed

lemma re_search_unfold:
  "re_search ic r s =
     (case first_groups (re_m ic r (s, [])) of
        Some g \<Rightarrow> Some g
      | None \<Rightarrow> (case s of [] \<Rightarrow> None | _ # t \<Rightarrow> re_search ic r t))"
  by (cases s) (simp_all add: re_search_Nil re_search_Cons split: option.splits)

lemma ip_search:
  "re_search True ip_re body = map_option (\<lambda>t. [(1, t)]) (first_position dotted_quad body)"
proof (induction body)
  case Nil
  show ?case by (simp add: re_search_Nil first_position_Nil ip_match)
next
  case (Cons c t)
  show ?case
  proof (cases "c = CHR '':''")
    case True
    have m: "first_groups (re_m True ip_re (c # t, [])) = first_groups (re_m True ip_re (t, []))"
      by (simp add: ip_match True)
    have "re_search True ip_re (c # t) = re_search True ip_re t"
    proof (cases "first_groups (re_m True ip_re (t, []))")
      case None
      then show ?thesis by (simp add: re_search_Cons m)
    next
      case (Some g)
      then have "re_search True ip_re t = Some g"
        using re_search_unfold[of True ip_re t] by simp
      with Some show ?thesis by (simp add: re_search_Cons m)
    qed
    moreover have "first_position dotted_quad (c # t) = first_position dotted_quad t"
      by (simp add: first_position_Cons True dotted_quad_colon)
    ultimately show ?thesis using Cons by simp
  next
    case False
    then have "first_groups (re_m True ip_re (c # t, [])) = map_option (\<lambda>t. [(1, t)]) (dotted_quad (c # t))"
      by (simp add: ip_match)
    then show ?thesis using Cons
      by (cases "dotted_quad (c # t)") (simp_all add: re_search_Cons first_position_Cons)
  qed
qed

lemma digit_not_space: "is_digit c \<Longrightarrow> \<not> is_space c"
  by (auto simp: is_digit_def is_space_def Let_def)

lemma strip_id: "t \<noteq> [] \<Longrightarrow> \<not> is_space (hd t) \<Longrightarrow> \<not> is_space (last t) \<Longrightarrow> strip t = t"
proof -
  assume t: "t \<noteq> []" and h: "\<not> is_space (hd t)" and l: "\<not> is_space (last t)"
  from t h have 1: "dropWhile is_space t = t" by (cases t) simp_all
  from t have "rev (butlast t @ [last t]) = rev t" by simp
  then have "rev t = last t # rev (butlast t)" by simp
  then have 2: "dropWhile is_space (rev t) = rev t" using l
    by (metis dropWhile.simps(2))
  show ?thesis by (simp add: strip_def 1 2)
qed

lemma dotted_quad_strip: "dotted_quad s = Some t \<Longrightarrow> strip t = t"
proof -
  assume "dotted_quad s = Some t"
  then obtain a s1 b s2 c s3 d where
    a: "digit_group s = Some (a, s1)" and d: "last_group s3 = Some d"
    and t: "t = a @ ''.'' @ b @ ''.'' @ c @ ''.'' @ d"
    by (auto simp: dotted_quad_def split: option.splits)
  from digit_group_digits[OF a] have a1: "a \<noteq> []" "is_digit (hd a)" by auto
  from last_group_digits[OF d] have d1: "d \<noteq> []" "is_digit (last d)" by auto
  have "t \<noteq> []" "hd t = hd a" "last t = last d" using a1 d1 by (simp_all add: t)
  with a1 d1 show ?thesis by (intro strip_id) (simp_all add: digit_not_space)
qed

lemma first_position_found: "first_position f s = Some r \<Longrightarrow> \<exists>u. f u = Some r"
proof (induction s)
  case Nil
  then show ?case by (auto simp: first_position_Nil)
next
  case (Cons c t)
  then show ?case by (cases "f (c # t)") (auto simp: first_position_Cons)
qed

lemma ip_artifact: "artifact ip_re 1 body = Inr (first_ip body)"
proof (cases "first_position dotted_quad body")
  case None
  then have "re_search True ip_re body = None" by (simp only: ip_search option.map)
  then have "artifact ip_re 1 body = Inr ''*''" by (simp only: artifact_def option.case)
  moreover from None have "first_ip body = ''*''" by (simp only: first_ip_def option.case)
  ultimately show ?thesis by (simp only:)
next
  case (Some t)
  from first_position_found[OF Some] obtain u where "dotted_quad u = Some t" ..
  then have s: "strip t = t" by (rule dotted_quad_strip)
  from Some have "re_search True ip_re body = Some [(1, t)]" by (simp only: ip_search option.map)
  moreover have "group_strip [(1, t)] 1 = Inr t" by (simp add: group_strip_def s)
  ultimately have "artifact ip_re 1 body = Inr t" by (simp only: artifact_def option.case)
  moreover from Some have "first_ip body = t" by (simp only: first_ip_def option.case)
  ultimately show ?thesis by (simp only:)
qed

lemma pull_artifacts_eq:
  "pull_artifacts body =
     Inr (labelled_value [''username'', ''email''] body,
          labelled_value [''email password'', ''password'', ''pass'', ''pd'', ''ps''] body,
          first_ip body)"
  using ip_artifact[of body]
  by (simp add: pull_artifacts_def user_artifact pwd_artifact)

lemma first_ip_placeholder: "first_ip body = ''*'' \<longleftrightarrow> first_position dotted_quad body = None"
proof (cases "first_position dotted_quad body")
  case None
  then show ?thesis by (simp add: first_ip_def)
next
  case (Some t)
  from first_position_found[OF Some] obtain u where u: "dotted_quad u = Some t" ..
  then obtain a s1 r where a: "digit_group u = Some (a, s1)" and t: "t = a @ r"
    by (auto simp: dotted_quad_def split: option.splits)
  from digit_group_digits[OF a] have "a \<noteq> []" "is_digit (hd a)" by auto
  then have "is_digit (hd t)" by (simp add: t)
  moreover have "\<not> is_digit CHR ''*''" by (simp add: is_digit_def)
  ultimately have "t \<noteq> ''*''" by auto
  with Some show ?thesis by (simp add: first_ip_def)
qed

section \<open>The three artifacts\<close>

text \<open>
  C4: for every body, the user name \<open>pull_artifacts\<close> returns is the rest of the line after
  the first place where \<open>username\<close> or \<open>email\<close>, in any case, is followed by optional
  spaces and a colon, trimmed of surrounding whitespace; it is the placeholder \<open>*\<close> when
  there is no such place.
\<close>

theorem pull_artifacts_username:
  "\<exists>pwd ip. pull_artifacts body = Inr (labelled_value [''username'', ''email''] body, pwd, ip)"
  by (simp add: pull_artifacts_eq)

text \<open>The theorem at a body with a \<open>Username:\<close> line and at a body without one.\<close>

theorem pull_artifacts_username_witness:
  "(\<exists>pwd ip. pull_artifacts ''Hi\<newline>Username: alice@example.com \<newline>bye'' = Inr (''alice@example.com'', pwd, ip))
   \<and> (\<exists>pwd ip. pull_artifacts ''no such line'' = Inr (''*'', pwd, ip))"
proof -
  have "labelled_value [''username'', ''email''] ''Hi\<newline>Username: alice@example.com \<newline>bye'' = ''alice@example.com''"
    by code_simp
  moreover have "labelled_value [''username'', ''email''] ''no such line'' = ''*''"
    by code_simp
  ultimately show ?thesis
    using pull_artifacts_username[of "''Hi\<newline>Username: alice@example.com \<newline>bye''"]
      pull_artifacts_username[of "''no such line''"] by simp
qed

text \<open>
  C5: for every body, the password \<open>pull_artifacts\<close> returns is the trimmed rest of the line
  after the first position where one of \<open>email password\<close>, \<open>password\<close>, \<open>pass\<close>,
  \<open>pd\<close>, \<open>ps\<close>, in any case and tried in this order, is followed by optional spaces and a
  colon; it is the placeholder \<open>*\<close> when there is no such position.
\<close>

theorem pull_artifacts_password:
  "\<exists>user ip. pull_artifacts body =
     Inr (user, labelled_value [''email password'', ''password'', ''pass'', ''pd'', ''ps''] body, ip)"
  by (simp add: pull_artifacts_eq)

text \<open>The theorem at a body with an \<open>Email Password :\<close> line and at a body without a label.\<close>

theorem pull_artifacts_password_witness:
  "(\<exists>user ip. pull_artifacts ''my Email Password : hunter2  \<newline>ps: x'' = Inr (user, ''hunter2'', ip))
   \<and> (\<exists>user ip. pull_artifacts ''passwords'' = Inr (user, ''*'', ip))"
proof -
  have "labelled_value [''email password'', ''password'', ''pass'', ''pd'', ''ps'']
          ''my Email Password : hunter2  \<newline>ps: x'' = ''hunter2''"
    by code_simp
  moreover have "labelled_value [''email password'', ''password'', ''pass'', ''pd'', ''ps'']
          ''passwords'' = ''*''"
    by code_simp
  ultimately show ?thesis
    using pull_artifacts_password[of "''my Email Password : hunter2  \<newline>ps: x''"]
      pull_artifacts_password[of "''passwords''"] by simp
qed

text \<open>
  C3: for every body, the IP artifact \<open>pull_artifacts\<close> returns is the first occurrence of
  four groups of one to three digits separated by periods; the colons the pattern allows
  before it do not change what is found. No group is checked against 255: the body
  \<open>999.999.999.999\<close> yields that string. The placeholder \<open>*\<close> is returned exactly when no
  such occurrence exists.
\<close>

theorem pull_artifacts_ip:
  "(\<exists>user pwd. pull_artifacts body = Inr (user, pwd, first_ip body))
   \<and> (first_ip body = ''*'' \<longleftrightarrow> first_position dotted_quad body = None)
   \<and> pull_artifacts ''999.999.999.999'' = Inr (''*'', ''*'', ''999.999.999.999'')"
proof -
  have "pull_artifacts ''999.999.999.999'' = Inr (''*'', ''*'', ''999.999.999.999'')"
    by code_simp
  then show ?thesis by (simp add: pull_artifacts_eq first_ip_placeholder)
qed

text \<open>The theorem at three bodies: an address, a longer run of digits, and no address.\<close>

theorem pull_artifacts_ip_witness:
  "(\<exists>user pwd. pull_artifacts ''IP: 192.168.1.1'' = Inr (user, pwd, ''192.168.1.1''))
   \<and> (\<exists>user pwd. pull_artifacts ''at 1234.5.6.7890:'' = Inr (user, pwd, ''234.5.6.789''))
   \<and> (\<exists>user pwd. pull_artifacts ''1.2.3'' = Inr (user, pwd, ''*''))"
proof -
  have a: "first_ip ''IP: 192.168.1.1'' = ''192.168.1.1''" by code_simp
  have b: "first_ip ''at 1234.5.6.7890:'' = ''234.5.6.789''" by code_simp
  have c: "first_ip ''1.2.3'' = ''*''" by code_simp
  from pull_artifacts_ip[of "''IP: 192.168.1.1''"]
  have 1: "\<exists>user pwd. pull_artifacts ''IP: 192.168.1.1'' = Inr (user, pwd, ''192.168.1.1'')"
    unfolding a by (rule conjunct1)
  from pull_artifacts_ip[of "''at 1234.5.6.7890:''"]
  have 2: "\<exists>user pwd. pull_artifacts ''at 1234.5.6.7890:'' = Inr (user, pwd, ''234.5.6.789'')"
    unfolding b by (rule conjunct1)
  from pull_artifacts_ip[of "''1.2.3''"]
  have 3: "\<exists>user pwd. pull_artifacts ''1.2.3'' = Inr (user, pwd, ''*'')"
    unfolding c by (rule conjunct1)
  from 1 2 3 show ?thesis by (intro conjI)
qed

section \<open>The columns of the table\<close>

lemma count_list_distinct: "distinct xs \<Longrightarrow> x \<in> set xs \<Longrightarrow> count_list xs x = 1"
  by (induction xs) auto

lemma count_csv_columns:
  assumes "finite known" "x \<in> known"
    "x \<in> {''body'', ''username'', ''password'', ''ip'', ''source-email-file''}"
  shows "count_list (csv_columns known) x = 2"
proof -
  have "count_list (sorted_list_of_set known) x = 1"
    using assms(1,2) by (simp add: count_list_distinct)
  moreover have "count_list [''body'', ''username'', ''password'', ''ip'', ''source-email-file''] x = 1"
    using assms(3) by auto
  ultimately show ?thesis by (simp add: csv_columns_def)
qed

section \<open>The files \<open>load_data\<close> selects\<close>

lemma endswith_iff: "endswith s suf \<longleftrightarrow> (\<exists>pre. s = pre @ suf)"
proof
  assume "endswith s suf"
  then have "s = take (length s - length suf) s @ suf"
    unfolding endswith_def by (metis append_take_drop_id)
  then show "\<exists>pre. s = pre @ suf" ..
next
  assume "\<exists>pre. s = pre @ suf"
  then show "endswith s suf" by (auto simp: endswith_def)
qed

lemma fnmatch_literal: "CHR ''*'' \<notin> set p \<Longrightarrow> fnmatch s p \<longleftrightarrow> s = wide p"
proof (induction p arbitrary: s)
  case Nil
  then show ?case by (cases s) (simp_all add: wide_def)
next
  case (Cons a p)
  then show ?case by (cases s) (auto simp: wide_def)
qed

lemma fnmatch_star:
  "CHR ''*'' \<notin> set p \<Longrightarrow> fnmatch s (CHR ''*'' # p) \<longleftrightarrow> endswith s (wide p)"
proof (induction s)
  case Nil
  then show ?case by (auto simp: fnmatch_literal endswith_def)
next
  case (Cons c t)
  have "endswith (c # t) (wide p) \<longleftrightarrow> c # t = wide p \<or> endswith t (wide p)"
    unfolding endswith_iff by (auto simp: Cons_eq_append_conv)
  with Cons show ?case by (simp add: fnmatch_literal)
qed

lemma fnmatch_pattern: "fnmatch s pattern \<longleftrightarrow> endswith s (wide ''.eml'')"
  unfolding pattern_def by (rule fnmatch_star) simp

lemma endswith_after_slash:
  assumes "q = [] \<or> last q = x" and "x \<notin> set suf"
  shows "endswith (q @ n) suf \<longleftrightarrow> endswith n suf"
proof
  assume "endswith n suf"
  then show "endswith (q @ n) suf" unfolding endswith_iff by auto
next
  assume "endswith (q @ n) suf"
  then obtain pre where "q @ n = pre @ suf" unfolding endswith_iff by blast
  then obtain us where "(q = pre @ us \<and> us @ n = suf) \<or> (q @ us = pre \<and> n = us @ suf)"
    unfolding append_eq_append_conv2 by blast
  then show "endswith n suf"
  proof
    assume a: "q = pre @ us \<and> us @ n = suf"
    show ?thesis
    proof (cases "us = []")
      case True
      with a show ?thesis unfolding endswith_iff by auto
    next
      case False
      with a have "last q = last us" "q \<noteq> []" by auto
      with assms(1) have "last us = x" by auto
      with False have "x \<in> set us" by (metis last_in_set)
      with a assms(2) show ?thesis by auto
    qed
  next
    assume "q @ us = pre \<and> n = us @ suf"
    then show ?thesis unfolding endswith_iff by blast
  qed
qed

lemma selected_iff:
  "fnmatch (entry_path path entry) pattern \<longleftrightarrow> endswith (entry_name entry) (wide ''.eml'')"
proof -
  have x: "Code CHR ''/'' \<notin> set (wide ''.eml'')" by (simp add: wide_def)
  show ?thesis
  proof (cases "path = [] \<or> last path = CHR ''/''")
    case True
    then have q: "wide path = [] \<or> last (wide path) = Code CHR ''/''"
      by (cases "path = []") (simp_all add: wide_def last_map)
    have e: "entry_path path entry = wide path @ entry_name entry"
      using True by (simp add: entry_path_def)
    show ?thesis unfolding fnmatch_pattern e by (rule endswith_after_slash[OF q x])
  next
    case False
    have q: "wide path @ wide ''/'' = [] \<or> last (wide path @ wide ''/'') = Code CHR ''/''"
      by (simp add: wide_def)
    have e: "entry_path path entry = (wide path @ wide ''/'') @ entry_name entry"
      using False by (simp add: entry_path_def)
    show ?thesis unfolding fnmatch_pattern e by (rule endswith_after_slash[OF q x])
  qed
qed



section \<open>Writing records whose keys are columns\<close>

lemma dict_to_list_conforming:
  "fst ` set d \<subseteq> set cols \<Longrightarrow>
   dict_to_list cols d = Inr (map (\<lambda>key. case map_of d key of None \<Rightarrow> Scalar [] | Some v \<Rightarrow> v) cols)"
  by (auto simp: dict_to_list_def filter_empty_conv)

lemma row_encodable:
  assumes "\<forall>v\<in>snd ` set d. encodable_field v"
  shows "list_all encodable_field
           (map (\<lambda>key. case map_of d key of None \<Rightarrow> Scalar [] | Some v \<Rightarrow> v) cols)"
proof -
  have "encodable_field (case map_of d key of None \<Rightarrow> Scalar [] | Some v \<Rightarrow> v)" for key
  proof (cases "map_of d key")
    case None
    then show ?thesis by (simp add: encodable_field_def encodable_def)
  next
    case (Some v)
    then have "(key, v) \<in> set d" by (rule map_of_SomeD)
    then have "v \<in> snd ` set d" by force
    with assms have "encodable_field v" by blast
    with Some show ?thesis by simp
  qed
  then show ?thesis by (simp add: list_all_iff)
qed

lemma writerows_conforming:
  "\<forall>d\<in>set ds. fst ` set d \<subseteq> set cols \<and> (\<forall>v\<in>snd ` set d. encodable_field v) \<Longrightarrow>
   writerows cols ds k io =
     (if \<exists>j. io = Some j \<and> k \<le> j \<and> j \<le> k + length ds then Inl OSError
      else Inr (map (\<lambda>d. map (\<lambda>key. case map_of d key of None \<Rightarrow> Scalar [] | Some v \<Rightarrow> v) cols) ds))"
proof (induction ds arbitrary: k)
  case Nil
  then show ?case by auto
next
  case (Cons d ds)
  then have d: "dict_to_list cols d
      = Inr (map (\<lambda>key. case map_of d key of None \<Rightarrow> Scalar [] | Some v \<Rightarrow> v) cols)"
    by (intro dict_to_list_conforming) simp
  from Cons.prems have enc: "list_all encodable_field
      (map (\<lambda>key. case map_of d key of None \<Rightarrow> Scalar [] | Some v \<Rightarrow> v) cols)"
    by (intro row_encodable) simp
  from Cons.prems have rest:
    "\<forall>d\<in>set ds. fst ` set d \<subseteq> set cols \<and> (\<forall>v\<in>snd ` set d. encodable_field v)" by simp
  have split: "(\<exists>j. io = Some j \<and> k \<le> j \<and> j \<le> k + length (d # ds))
      \<longleftrightarrow> io = Some k \<or> (\<exists>j. io = Some j \<and> Suc k \<le> j \<and> j \<le> Suc k + length ds)"
    by (cases io) auto
  show ?case
  proof (cases "io = Some k")
    case True
    then show ?thesis unfolding split by (simp add: d enc)
  next
    case False
    then show ?thesis unfolding split by (auto simp: d enc Cons.IH[OF rest])
  qed
qed

lemma write_table_conforming:
  assumes "\<forall>d\<in>set ds. fst ` set d \<subseteq> set cols \<and> (\<forall>v\<in>snd ` set d. encodable_field v)"
  shows "write_table cols ds io =
     (if io_error_occurs io (length ds) then Inl OSError
      else Inr (map (\<lambda>name. Scalar (wide name)) cols
             # map (\<lambda>d. map (\<lambda>key. case map_of d key of None \<Rightarrow> Scalar [] | Some v \<Rightarrow> v) cols) ds))"
proof -
  have "io_error_occurs io (length ds)
      \<longleftrightarrow> io = Some 0 \<or> io = Some 1 \<or> (\<exists>j. io = Some j \<and> 2 \<le> j \<and> j \<le> 2 + length ds)"
    by (cases io) (auto simp: io_error_occurs_def)
  then show ?thesis
    unfolding write_table_def writerows_conforming[OF assms] by auto
qed

lemma write_data_to_file_conforming:
  assumes "\<forall>d\<in>set ds. fst ` set d \<subseteq> set (csv_columns (email_header_fields st))
             \<and> (\<forall>v\<in>snd ` set d. encodable_field v)"
  shows "write_data_to_file ds output_file io st =
     (if io_error_occurs io (length ds) then Inr (False, print (wide ''I/O Error!'') st)
      else Inr (True, st\<lparr>written := written st @ [(output_file,
               map (\<lambda>name. Scalar (wide name)) (csv_columns (email_header_fields st))
             # map (\<lambda>d. map (\<lambda>key. case map_of d key of None \<Rightarrow> Scalar [] | Some v \<Rightarrow> v)
                      (csv_columns (email_header_fields st))) ds)]\<rparr>))"
  unfolding write_data_to_file_def write_table_conforming[OF assms] by simp

lemma parse_header_keys:
  assumes "parse_header file st = Inr (header, st')"
  shows "fst ` set header
     = set (map lower (keys (file_message file)))
       \<union> {''body'', ''username'', ''password'', ''ip'', ''source-email-file''}"
proof -
  obtain user pwd ip where p: "pull_artifacts (payload (file_message file)) = Inr (user, pwd, ip)"
    using pull_artifacts_total by blast
  have "dom (map_of header)
     = set (map lower (keys (file_message file)))
       \<union> {''body'', ''username'', ''password'', ''ip'', ''source-email-file''}"
    unfolding dom_def parse_header_lookup[OF p assms] by (auto split: if_splits)
  then show ?thesis by (simp add: dom_map_of_conv_image_fst)
qed

lemma set_csv_columns:
  "finite known \<Longrightarrow>
   set (csv_columns known)
     = known \<union> {''body'', ''username'', ''password'', ''ip'', ''source-email-file''}"
  by (auto simp: csv_columns_def)

lemma load_entries_invariant:
  assumes "load_entries path entries data st = Inr (data', st')"
    and "finite (email_header_fields st)"
    and "\<forall>d\<in>set data. fst ` set d \<subseteq> email_header_fields st
           \<union> {''body'', ''username'', ''password'', ''ip'', ''source-email-file''}"
  shows "finite (email_header_fields st')
     \<and> (\<forall>d\<in>set data'. fst ` set d \<subseteq> email_header_fields st'
           \<union> {''body'', ''username'', ''password'', ''ip'', ''source-email-file''})"
  using assms
proof (induction entries arbitrary: data st)
  case Nil
  then show ?case by simp
next
  case (Cons e es)
  show ?case
  proof (cases "entry_is_file e \<and> fnmatch (entry_path path e) pattern")
    case False
    with Cons.prems(1) have "load_entries path es data st = Inr (data', st')" by auto
    from Cons.IH[OF this Cons.prems(2,3)] show ?thesis .
  next
    case True
    let ?st1 = "print (wide ''Working on parsing file: '' @ entry_name e) st"
    from True Cons.prems(1) obtain m where m: "entry_open e = Some m"
      by (cases "entry_open e") simp_all
    let ?file = "\<lparr>file_name = entry_path path e, file_message = m\<rparr>"
    obtain temp_dict st2 where p: "parse_header ?file ?st1 = Inr (temp_dict, st2)"
      using parse_header_total by blast
    have l: "load_entries path es (data @ [temp_dict]) st2 = Inr (data', st')"
      using True m p Cons.prems(1) by simp
    have f2: "email_header_fields st2 = email_header_fields st \<union> set (map lower (keys m))"
      using parse_header_schema[OF p] by (simp add: print_def)
    then have fin: "finite (email_header_fields st2)" using Cons.prems(2) by simp
    have "\<forall>d\<in>set (data @ [temp_dict]). fst ` set d \<subseteq> email_header_fields st2
           \<union> {''body'', ''username'', ''password'', ''ip'', ''source-email-file''}"
      using Cons.prems(3) parse_header_keys[OF p] unfolding f2 by auto
    from Cons.IH[OF l fin this] show ?thesis .
  qed
qed

section \<open>Records whose values can be encoded\<close>

lemma encodable_append: "encodable (a @ b) \<longleftrightarrow> encodable a \<and> encodable b"
  by (simp add: encodable_def)

lemma encodable_wide: "encodable (wide s)"
  by (simp add: encodable_def wide_def list_all_iff)

lemma encodable_lower_text: "encodable (lower_text t) \<longleftrightarrow> encodable t"
  by (induction t) (auto simp: encodable_def lower_text_def lower_wchar_def split: wchar.splits)

lemma encodable_basename: "encodable t \<Longrightarrow> encodable (basename t)"
proof -
  assume t: "encodable t"
  have "set (basename t) \<subseteq> set t"
    unfolding basename_def using set_takeWhileD by fastforce
  with t show ?thesis by (auto simp: encodable_def list_all_iff)
qed

lemma encodable_entry_path: "encodable (entry_path path e) \<longleftrightarrow> encodable (entry_name e)"
  by (simp add: entry_path_def encodable_append encodable_wide)

lemma update_values:
  "\<forall>v\<in>snd ` set al. P v \<Longrightarrow> P w \<Longrightarrow> \<forall>v\<in>snd ` set (AList.update k w al). P v"
  by (induction al) auto

lemma fold_update_values:
  "\<forall>v\<in>snd ` set h0. P v \<Longrightarrow> \<forall>x. P (a x) \<Longrightarrow>
   \<forall>v\<in>snd ` set (fold (\<lambda>x h. AList.update x (a x) h) xs h0). P v"
proof (induction xs arbitrary: h0)
  case Nil
  then show ?case by simp
next
  case (Cons x xs)
  from Cons.prems have "\<forall>v\<in>snd ` set (AList.update x (a x) h0). P v"
    by (intro update_values) simp_all
  from Cons.IH[OF this Cons.prems(2)] show ?case by simp
qed

lemma encodable_of_get: "encodable_field (of_get v)"
  by (cases v) (simp_all add: of_get_def encodable_field_def encodable_wide)

lemma encodable_of_get_all: "encodable_field (of_get_all v)"
  by (cases v) (simp_all add: of_get_all_def encodable_field_def)

lemma parse_header_encodable:
  assumes "parse_header file st = Inr (header, st')"
    and "encodable (file_name file)"
  shows "\<forall>v\<in>snd ` set header. encodable_field v"
proof -
  let ?m = "file_message file"
  let ?dup = "set (filter (\<lambda>y. count_list (map lower (keys ?m)) y > 1) (map lower (keys ?m)))"
  let ?a = "\<lambda>x. if x \<notin> ?dup then of_get (get ?m x) else of_get_all (get_all ?m x)"
  let ?h0 = "AList.update ''source-email-file'' (Scalar (basename (lower_text (file_name file)))) []"
  obtain user pwd ip where p: "pull_artifacts (payload ?m) = Inr (user, pwd, ip)"
    using pull_artifacts_total by blast
  have same: "(\<lambda>x header. if x \<notin> ?dup
                      then AList.update x (of_get (get ?m x)) header
                      else AList.update x (of_get_all (get_all ?m x)) header)
      = (\<lambda>x h. AList.update x (?a x) h)"
    by (intro ext) simp
  have h: "header = AList.update ''ip'' (Scalar (wide ip))
           (AList.update ''password'' (Scalar (wide pwd))
             (AList.update ''username'' (Scalar (wide user))
               (AList.update ''body'' (Scalar (wide (payload ?m)))
                 (fold (\<lambda>x h. AList.update x (?a x) h) (remdups (map lower (keys ?m))) ?h0))))"
    using assms(1) unfolding parse_header_unfold[OF p] same by simp
  have name: "encodable_field (Scalar (basename (lower_text (file_name file))))"
    using assms(2) by (simp add: encodable_field_def encodable_basename encodable_lower_text)
  have w: "encodable_field (Scalar (wide t))" for t
    by (simp add: encodable_field_def encodable_wide)
  have a: "\<forall>x. encodable_field (?a x)"
    by (simp add: encodable_of_get encodable_of_get_all)
  have 0: "\<forall>v\<in>snd ` set ?h0. encodable_field v" using name by simp
  have 1: "\<forall>v\<in>snd ` set (fold (\<lambda>x h. AList.update x (?a x) h)
                              (remdups (map lower (keys ?m))) ?h0). encodable_field v"
    using 0 a by (rule fold_update_values)
  show ?thesis unfolding h
    by (intro update_values 1 w)
qed

lemma load_entries_encodable:
  assumes "load_entries path entries data st = Inr (data', st')"
    and "\<forall>e\<in>set (eml_files entries). encodable (entry_name e)"
    and "\<forall>d\<in>set data. \<forall>v\<in>snd ` set d. encodable_field v"
  shows "\<forall>d\<in>set data'. \<forall>v\<in>snd ` set d. encodable_field v"
  using assms
proof (induction entries arbitrary: data st)
  case Nil
  then show ?case by simp
next
  case (Cons e es)
  have rest: "\<forall>e\<in>set (eml_files es). encodable (entry_name e)"
    using Cons.prems(2) by (simp add: eml_files_def)
  show ?case
  proof (cases "entry_is_file e \<and> fnmatch (entry_path path e) pattern")
    case False
    with Cons.prems(1) have "load_entries path es data st = Inr (data', st')" by auto
    from Cons.IH[OF this rest Cons.prems(3)] show ?thesis .
  next
    case True
    then have "e \<in> set (eml_files (e # es))" by (simp add: eml_files_def selected_iff)
    with Cons.prems(2) have n: "encodable (entry_name e)" by blast
    let ?st1 = "print (wide ''Working on parsing file: '' @ entry_name e) st"
    from True Cons.prems(1) obtain m where m: "entry_open e = Some m"
      by (cases "entry_open e") simp_all
    let ?file = "\<lparr>file_name = entry_path path e, file_message = m\<rparr>"
    obtain temp_dict st2 where p: "parse_header ?file ?st1 = Inr (temp_dict, st2)"
      using parse_header_total by blast
    have l: "load_entries path es (data @ [temp_dict]) st2 = Inr (data', st')"
      using True m p Cons.prems(1) by simp
    have "\<forall>v\<in>snd ` set temp_dict. encodable_field v"
      using parse_header_encodable[OF p] n by (simp add: encodable_entry_path)
    with Cons.prems(3) have "\<forall>d\<in>set (data @ [temp_dict]). \<forall>v\<in>snd ` set d. encodable_field v"
      by auto
    from Cons.IH[OF l rest this] show ?thesis .
  qed
qed

section \<open>Headers and the reserved keys of a record\<close>

lemma parse_header_other_headers:
  assumes "parse_header file st = Inr (header, st')"
    and "x \<in> set (map lower (keys (file_message file)))"
    and "x \<notin> {''body'', ''username'', ''password'', ''ip''}"
  shows "map_of header x = Some (header_value (file_message file) x)"
proof -
  obtain user pwd ip where p: "pull_artifacts (payload (file_message file)) = Inr (user, pwd, ip)"
    using pull_artifacts_total by blast
  show ?thesis unfolding parse_header_lookup[OF p assms(1)] using assms(2,3) by simp
qed

text \<open>
  C1: \<open>parse_header\<close> should map every lower-cased header name to its value when the name
  occurs once and to all its values in order when it occurs more often, no occurrence
  dropped or overwritten. The lemma above shows that for every name other than \<open>body\<close>,
  \<open>username\<close>, \<open>password\<close> and \<open>ip\<close>. At a message with the header \<open>Body: hello\<close>
  the record holds the payload under \<open>body\<close>, and the header's value \<open>hello\<close> is gone.
\<close>

theorem parse_header_body_header_lost:
  "parse_header
     \<lparr>file_name = wide ''mail/one.eml'',
      file_message = \<lparr>headers = [(''Body'', ''hello'')], payload = ''text''\<rparr>\<rparr> initial_state
   = Inr ([(''source-email-file'', Scalar (wide ''one.eml'')), (''body'', Scalar (wide ''text'')),
           (''username'', Scalar (wide ''*'')), (''password'', Scalar (wide ''*'')), (''ip'', Scalar (wide ''*''))],
          \<lparr>email_header_fields = {''body''}, stdout = [], written = []\<rparr>)
   \<and> header_value \<lparr>headers = [(''Body'', ''hello'')], payload = ''text''\<rparr> ''body'' = Scalar (wide ''hello'')"
  by code_simp

text \<open>
  C10: for some input, a header of the message whose lower-cased name is a reserved key
  loses its value: the record holds the payload or the artifact under that name, the name
  enters the schema set, and the column appears twice in the header row. The message with
  the single header \<open>Body: hello\<close> and the payload \<open>text\<close> is such an input; and the
  same happens at every message that has a header named \<open>body\<close>, \<open>username\<close>,
  \<open>password\<close> or \<open>ip\<close>, whatever the value of the header is.
\<close>

theorem reserved_header_name:
  "(\<exists>file st header st'.
       parse_header file st = Inr (header, st')
     \<and> ''body'' \<in> set (map lower (keys (file_message file)))
     \<and> header_value (file_message file) ''body'' = Scalar (wide ''hello'')
     \<and> map_of header ''body'' = Some (Scalar (wide ''text''))
     \<and> ''body'' \<in> email_header_fields st'
     \<and> count_list (csv_columns (email_header_fields st')) ''body'' = 2)
   \<and> (\<forall>file st header st' x.
         parse_header file st = Inr (header, st')
       \<and> finite (email_header_fields st)
       \<and> x \<in> set (map lower (keys (file_message file)))
       \<and> x \<in> {''body'', ''username'', ''password'', ''ip''} \<longrightarrow>
         (\<exists>user pwd ip.
             pull_artifacts (payload (file_message file)) = Inr (user, pwd, ip)
           \<and> map_of header x =
               Some (if x = ''body'' then Scalar (wide (payload (file_message file)))
                     else if x = ''username'' then Scalar (wide user)
                     else if x = ''password'' then Scalar (wide pwd)
                     else Scalar (wide ip))
           \<and> x \<in> email_header_fields st'
           \<and> count_list (csv_columns (email_header_fields st')) x = 2))"
proof -
  let ?m = "\<lparr>headers = [(''Body'', ''hello'')], payload = ''text''\<rparr>"
  let ?file = "\<lparr>file_name = wide ''mail/one.eml'', file_message = ?m\<rparr>"
  let ?header = "[(''source-email-file'', Scalar (wide ''one.eml'')), (''body'', Scalar (wide ''text'')),
                  (''username'', Scalar (wide ''*'')), (''password'', Scalar (wide ''*'')),
                  (''ip'', Scalar (wide ''*''))]"
  let ?st' = "\<lparr>email_header_fields = {''body''}, stdout = [], written = []\<rparr>"
  have e1: "parse_header ?file initial_state = Inr (?header, ?st')" by code_simp
  have e2: "''body'' \<in> set (map lower (keys (file_message ?file)))" by code_simp
  have e3: "header_value (file_message ?file) ''body'' = Scalar (wide ''hello'')" by code_simp
  have e4: "map_of ?header ''body'' = Some (Scalar (wide ''text''))" by simp
  have e5: "''body'' \<in> email_header_fields ?st'" by simp
  have e6: "count_list (csv_columns (email_header_fields ?st')) ''body'' = 2" by code_simp
  from e1 e2 e3 e4 e5 e6 have 1: "\<exists>file st header st'.
       parse_header file st = Inr (header, st')
     \<and> ''body'' \<in> set (map lower (keys (file_message file)))
     \<and> header_value (file_message file) ''body'' = Scalar (wide ''hello'')
     \<and> map_of header ''body'' = Some (Scalar (wide ''text''))
     \<and> ''body'' \<in> email_header_fields st'
     \<and> count_list (csv_columns (email_header_fields st')) ''body'' = 2"
    by blast
  have 2: "\<exists>user pwd ip.
             pull_artifacts (payload (file_message f)) = Inr (user, pwd, ip)
           \<and> map_of h x =
               Some (if x = ''body'' then Scalar (wide (payload (file_message f)))
                     else if x = ''username'' then Scalar (wide user)
                     else if x = ''password'' then Scalar (wide pwd)
                     else Scalar (wide ip))
           \<and> x \<in> email_header_fields s'
           \<and> count_list (csv_columns (email_header_fields s')) x = 2"
    if ph: "parse_header f s = Inr (h, s')"
      and fin0: "finite (email_header_fields s)"
      and key: "x \<in> set (map lower (keys (file_message f)))"
      and res: "x \<in> {''body'', ''username'', ''password'', ''ip''}"
    for f s h s' x
  proof -
    obtain user pwd ip where p: "pull_artifacts (payload (file_message f)) = Inr (user, pwd, ip)"
      using pull_artifacts_total by blast
    have st': "email_header_fields s' = email_header_fields s \<union> set (map lower (keys (file_message f)))"
      using parse_header_schema[OF ph] by simp
    then have fin: "finite (email_header_fields s')" and mem: "x \<in> email_header_fields s'"
      using fin0 key by simp_all
    from res have res5: "x \<in> {''body'', ''username'', ''password'', ''ip'', ''source-email-file''}"
      by blast
    have "map_of h x =
               Some (if x = ''body'' then Scalar (wide (payload (file_message f)))
                     else if x = ''username'' then Scalar (wide user)
                     else if x = ''password'' then Scalar (wide pwd)
                     else Scalar (wide ip))"
      unfolding parse_header_lookup[OF p ph] using res by auto
    with p mem count_csv_columns[OF fin mem res5] show ?thesis by blast
  qed
  from 1 2 show ?thesis by blast
qed

text \<open>The second part of the theorem at a message with the headers \<open>Body\<close> and \<open>IP\<close>.\<close>

theorem reserved_header_name_witness:
  "(\<exists>user pwd ip. pull_artifacts ''text'' = Inr (user, pwd, ip)
      \<and> map_of [(''source-email-file'', Scalar (wide ''one.eml'')), (''body'', Scalar (wide ''text'')),
                 (''ip'', Scalar (wide ''*'')), (''username'', Scalar (wide ''*'')),
                 (''password'', Scalar (wide ''*''))]
            ''body'' = Some (Scalar (wide ''text''))
      \<and> count_list (csv_columns {''body'', ''ip''}) ''body'' = 2)
   \<and> (\<exists>user pwd ip. pull_artifacts ''text'' = Inr (user, pwd, ip)
      \<and> map_of [(''source-email-file'', Scalar (wide ''one.eml'')), (''body'', Scalar (wide ''text'')),
                 (''ip'', Scalar (wide ''*'')), (''username'', Scalar (wide ''*'')),
                 (''password'', Scalar (wide ''*''))]
            ''ip'' = Some (Scalar (wide ip))
      \<and> count_list (csv_columns {''body'', ''ip''}) ''ip'' = 2)"
proof -
  let ?m = "\<lparr>headers = [(''Body'', ''hello''), (''IP'', ''10.0.0.1'')], payload = ''text''\<rparr>"
  let ?file = "\<lparr>file_name = wide ''mail/one.eml'', file_message = ?m\<rparr>"
  let ?header = "[(''source-email-file'', Scalar (wide ''one.eml'')), (''body'', Scalar (wide ''text'')),
                 (''ip'', Scalar (wide ''*'')), (''username'', Scalar (wide ''*'')),
                 (''password'', Scalar (wide ''*''))]"
  let ?st' = "\<lparr>email_header_fields = {''body'', ''ip''}, stdout = [], written = []\<rparr>"
  have e: "parse_header ?file initial_state = Inr (?header, ?st')"
    by code_simp
  have f: "finite (email_header_fields initial_state)" by (simp add: initial_state_def)
  have k: "map lower (keys (file_message ?file)) = [''body'', ''ip'']" by code_simp
  have 1: "''body'' \<in> set (map lower (keys (file_message ?file)))" unfolding k by simp
  have 2: "''ip'' \<in> set (map lower (keys (file_message ?file)))" unfolding k by simp
  have r1: "''body'' \<in> {''body'', ''username'', ''password'', ''ip''}" by simp
  have r2: "''ip'' \<in> {''body'', ''username'', ''password'', ''ip''}" by simp
  note u = reserved_header_name[THEN conjunct2, rule_format]
  from u[of ?file initial_state ?header ?st' "''body''"] e f 1 r1
  have b: "\<exists>user pwd ip. pull_artifacts ''text'' = Inr (user, pwd, ip)
      \<and> map_of ?header ''body'' = Some (Scalar (wide ''text''))
      \<and> count_list (csv_columns {''body'', ''ip''}) ''body'' = 2"
    by simp
  from u[of ?file initial_state ?header ?st' "''ip''"] e f 2 r2
  have i: "\<exists>user pwd ip. pull_artifacts ''text'' = Inr (user, pwd, ip)
      \<and> map_of ?header ''ip'' = Some (Scalar (wide ip))
      \<and> count_list (csv_columns {''body'', ''ip''}) ''ip'' = 2"
    by simp
  from b i show ?thesis ..
qed

text \<open>
  With a header named \<open>source-email-file\<close> it is the other way round: the file name is
  assigned before the loop over the headers, which then replaces it with the header's
  value. At the header \<open>Source-Email-File: elsewhere\<close> in the file \<open>mail/one.eml\<close> the
  record holds \<open>elsewhere\<close>, and the name of the file is not in the record.
\<close>

lemma source_email_file_header_kept:
  "parse_header
     \<lparr>file_name = wide ''mail/one.eml'',
      file_message = \<lparr>headers = [(''Source-Email-File'', ''elsewhere'')], payload = ''text''\<rparr>\<rparr>
     initial_state
   = Inr ([(''source-email-file'', Scalar (wide ''elsewhere'')), (''body'', Scalar (wide ''text'')),
           (''username'', Scalar (wide ''*'')), (''password'', Scalar (wide ''*'')), (''ip'', Scalar (wide ''*''))],
          \<lparr>email_header_fields = {''source-email-file''}, stdout = [], written = []\<rparr>)
   \<and> basename (lower_text (wide ''mail/one.eml'')) = wide ''one.eml''
   \<and> header_value \<lparr>headers = [(''Source-Email-File'', ''elsewhere'')], payload = ''text''\<rparr>
         ''source-email-file'' = Scalar (wide ''elsewhere'')"
  by code_simp

section \<open>Argument validation\<close>

lemma main_regular_file:
  "fs arg1 = Some RegularFile \<Longrightarrow> main [prog, arg1, arg2] fs io st = Inl NotADirectoryError"
  by (simp add: main_def path_exists_def load_data_def scandir_def)

text \<open>
  C2: a first argument that names an existing file that is not a directory should be
  rejected as a usage error. \<open>main\<close> only asks whether the path exists: with the regular
  file \<open>notes.txt\<close> the validation passes and the scan of the directory raises
  \<open>NotADirectoryError\<close>, while the message "Argument provided is not a directory." is
  what a missing path gets.
\<close>

theorem main_accepts_regular_file:
  "path_exists [''notes.txt'' \<mapsto> RegularFile] ''notes.txt''
   \<and> main [''email_header_parser.py'', ''notes.txt'', ''out.csv'']
         [''notes.txt'' \<mapsto> RegularFile] None initial_state = Inl NotADirectoryError
   \<and> main [''email_header_parser.py'', ''missing'', ''out.csv'']
         [''notes.txt'' \<mapsto> RegularFile] None initial_state
       = Inl (SystemExit ''Argument provided is not a directory.'')"
  by (simp add: main_def path_exists_def load_data_def scandir_def)

section \<open>The header row\<close>




section \<open>The number of records\<close>

lemma load_data_directory:
  "load_data path fs st = Inr (data, st1) \<Longrightarrow>
   \<exists>entries. fs path = Some (Directory entries) \<and> load_entries path entries [] st = Inr (data, st1)"
  by (auto simp: load_data_def scandir_def split: option.splits node.splits)



section \<open>The result of writing\<close>

lemma write_data_to_file_foreign_key:
  "write_data_to_file [[(''x-extra'', Scalar (wide ''1''))]] ''out.csv'' None initial_state = Inl ValueError"
  by code_simp

text \<open>
  For records whose keys are all columns and whose values can all be encoded,
  \<open>write_data_to_file\<close> returns \<open>True\<close> if and only if no I/O error occurs while the
  table is written, and on an I/O error it prints the failure and returns \<open>False\<close>.
\<close>

lemma write_data_to_file_encodable:
  assumes "\<forall>r\<in>set data_list. fst ` set r \<subseteq> set (csv_columns (email_header_fields st))
             \<and> (\<forall>v\<in>snd ` set r. encodable_field v)"
  shows "((\<exists>st'. write_data_to_file data_list output_file io st = Inr (True, st'))
          \<longleftrightarrow> \<not> io_error_occurs io (length data_list))
      \<and> (io_error_occurs io (length data_list) \<longrightarrow>
           write_data_to_file data_list output_file io st = Inr (False, print (wide ''I/O Error!'') st))"
  unfolding write_data_to_file_conforming[OF assms] by simp

text \<open>
  In \<open>main\<close>, when the names of the message files of the directory can all be encoded and
  \<open>load_data\<close> returns, the count of files is printed first and the last line is the
  success message exactly when no I/O error occurs, the failure message otherwise.
\<close>

lemma main_encodable_names:
  assumes fin: "finite (email_header_fields st)"
    and d: "fs arg1 = Some (Directory entries)"
    and names: "\<forall>e\<in>set (eml_files entries). encodable (entry_name e)"
    and l: "load_data arg1 fs st = Inr (data, st1)"
  shows "\<exists>st2. main [prog, arg1, arg2] fs io st = Inr st2
           \<and> stdout st2 = stdout st1
                @ [wide (''Processed '' @ str_nat (length data) @ '' files''),
                   if io_error_occurs io (length data) then wide ''I/O Error!''
                   else wide ''CSV file successfully written!'']"
proof -
  have le: "load_entries arg1 entries [] st = Inr (data, st1)"
    using l d by (simp add: load_data_def scandir_def)
  from load_entries_invariant[OF le fin] have
    fin1: "finite (email_header_fields st1)" and
    keys: "\<forall>d\<in>set data. fst ` set d \<subseteq> email_header_fields st1
         \<union> {''body'', ''username'', ''password'', ''ip'', ''source-email-file''}"
    by simp_all
  from load_entries_encodable[OF le names] have
    vals: "\<forall>d\<in>set data. \<forall>v\<in>snd ` set d. encodable_field v"
    by simp
  let ?st2 = "print (wide (''Processed '' @ str_nat (length data) @ '' files'')) st1"
  have f2: "email_header_fields ?st2 = email_header_fields st1" by (simp add: print_def)
  have conf: "\<forall>d\<in>set data. fst ` set d \<subseteq> set (csv_columns (email_header_fields ?st2))
                \<and> (\<forall>v\<in>snd ` set d. encodable_field v)"
    unfolding f2 set_csv_columns[OF fin1] using keys vals by blast
  have m: "main [prog, arg1, arg2] fs io st =
      (case write_data_to_file data arg2 io ?st2 of
         Inl e \<Rightarrow> Inl e
       | Inr (ok, st3) \<Rightarrow> Inr (if ok then print (wide ''CSV file successfully written!'') st3 else st3))"
    using d by (simp add: main_def path_exists_def l del: str_nat.simps)
  show ?thesis
    unfolding m write_data_to_file_conforming[OF conf]
    by (simp add: print_def del: str_nat.simps)
qed

text \<open>
  C8: \<open>write_data_to_file\<close> should return \<open>True\<close> when no I/O error occurs while the
  table is written and \<open>False\<close>, after reporting the failure, when one does; its
  documentation says it returns a boolean. In the directory \<open>mail\<close> with one message file
  whose name is the bytes FF 2E 65 6D 6C, \<open>load_data\<close> returns one record, whose
  \<open>source-email-file\<close> holds the name with its lone surrogate. No I/O error occurs, and
  \<open>write_data_to_file\<close> returns neither \<open>True\<close> nor \<open>False\<close>: writing the row raises
  \<open>UnicodeEncodeError\<close>, which \<open>except IOError\<close> does not catch. \<open>main\<close> ends with
  that exception after the count of files, with neither the success message nor
  \<open>I/O Error!\<close>.
\<close>

theorem write_data_to_file_undecodable_name:
  "load_data ''mail'' undecodable_fs initial_state
     = Inr ([[(''source-email-file'', Scalar (Escaped 255 # wide ''.eml'')),
              (''body'', Scalar []), (''username'', Scalar (wide ''*'')),
              (''password'', Scalar (wide ''*'')), (''ip'', Scalar (wide ''*''))]],
            \<lparr>email_header_fields = {},
             stdout = [wide ''Working on parsing file: '' @ Escaped 255 # wide ''.eml''],
             written = []\<rparr>)
   \<and> \<not> io_error_occurs None 1
   \<and> write_data_to_file
         [[(''source-email-file'', Scalar (Escaped 255 # wide ''.eml'')),
           (''body'', Scalar []), (''username'', Scalar (wide ''*'')),
           (''password'', Scalar (wide ''*'')), (''ip'', Scalar (wide ''*''))]]
         ''out.csv'' None
         \<lparr>email_header_fields = {},
          stdout = [wide ''Working on parsing file: '' @ Escaped 255 # wide ''.eml'',
                    wide ''Processed 1 files''],
          written = []\<rparr>
       = Inl UnicodeEncodeError
   \<and> main [''email_header_parser.py'', ''mail'', ''out.csv''] undecodable_fs None initial_state
       = Inl UnicodeEncodeError"
  by code_simp

end
